theory Spec2Isabelle
  imports Complex_Main
begin

section \<open>The presence and broadcast relay (websocket-back)\<close>

text \<open>
  A shallow embedding of the relay's server module. The definitions follow the variant
  with the message history (\<^verbatim>\<open>src/unnamed/part_000\<close>), line by line. The
  second variant (\<^verbatim>\<open>src/server.js\<close>) is the same program without the history
  buffer, without the \<^verbatim>\<open>broadcastUserState\<close> calls in the timer callback and in the
  registration handler, and with another timeout constant; where it differs, its
  definitions follow those of the first variant, with the suffix \<open>_js\<close>.

  The module's mutable variables (\<^verbatim>\<open>userState\<close>, \<^verbatim>\<open>messages\<close>,
  \<^verbatim>\<open>deletionTimers\<close>, the closure variable \<^verbatim>\<open>currentUserId\<close> of every
  connection) are the fields of one record, passed explicitly. What the module does to
  the outside (frames sent, the roster file written, log lines, HTTP replies) is
  appended to the field \<open>trace\<close>, in program order. An exception that leaves a
  handler is a value of its own.
\<close>

subsection \<open>JavaScript values as far as the module reads them\<close>

text \<open>
  A JSON number is a double: a rational or an infinity (\<^verbatim>\<open>JSON.parse\<close> yields no
  NaN; both zeros are \<open>Finite 0\<close>, they are equal under \<^verbatim>\<open>===\<close> and both falsy).
\<close>

datatype jsnum = Finite rat | PosInfinity | NegInfinity

text \<open>
  Arrays and objects carry the reference of the object (a natural number): JavaScript
  compares them by reference.
\<close>

datatype json =
    JUndefined
  | JNull
  | JBool bool
  | JNum jsnum
  | JStr string
  | JArr nat "json list"
  | JObj nat "(string \<times> json) list"

text \<open>The conversion to boolean of \<^verbatim>\<open>if (v)\<close>, \<^verbatim>\<open>a && b\<close> and \<^verbatim>\<open>!v\<close>.\<close>

fun truthy :: "json \<Rightarrow> bool" where
  "truthy JUndefined = False"
| "truthy JNull = False"
| "truthy (JBool b) = b"
| "truthy (JNum n) = (n \<noteq> Finite 0)"
| "truthy (JStr s) = (s \<noteq> [])"
| "truthy (JArr r xs) = True"
| "truthy (JObj r kvs) = True"

text \<open>
  What \<^verbatim>\<open>===\<close> and the key comparison of a \<^verbatim>\<open>Map\<close> observe of a value:
  a primitive by its value, an array or object by its reference.
\<close>

datatype key = KUndefined | KNull | KBool bool | KNum jsnum | KStr string | KRef nat

fun key_of :: "json \<Rightarrow> key" where
  "key_of JUndefined = KUndefined"
| "key_of JNull = KNull"
| "key_of (JBool b) = KBool b"
| "key_of (JNum n) = KNum n"
| "key_of (JStr s) = KStr s"
| "key_of (JArr r xs) = KRef r"
| "key_of (JObj r kvs) = KRef r"

definition strict_eq :: "json \<Rightarrow> json \<Rightarrow> bool" where
  "strict_eq a b = (key_of a = key_of b)"

text \<open>
  Reading one of the properties \<^verbatim>\<open>user\<close>, \<^verbatim>\<open>id\<close>, \<^verbatim>\<open>type\<close>,
  \<^verbatim>\<open>name\<close> of a value that is neither \<^verbatim>\<open>null\<close> nor \<^verbatim>\<open>undefined\<close>
  (no prototype defines them): an own property of an object, \<^verbatim>\<open>undefined\<close>
  otherwise. On \<^verbatim>\<open>null\<close> and \<^verbatim>\<open>undefined\<close> JavaScript throws a TypeError;
  the handlers below test \<open>nullish\<close> where the source reads a property unguarded.
\<close>

fun field :: "json \<Rightarrow> string \<Rightarrow> json" where
  "field (JObj r kvs) k = (case map_of kvs k of Some v \<Rightarrow> v | None \<Rightarrow> JUndefined)"
| "field v k = JUndefined"

fun nullish :: "json \<Rightarrow> bool" where
  "nullish JUndefined = True"
| "nullish JNull = True"
| "nullish v = False"

text \<open>\<^verbatim>\<open>Object.keys(v).length\<close> for a value that is not nullish.\<close>

fun keys_length :: "json \<Rightarrow> nat" where
  "keys_length (JObj r kvs) = length kvs"
| "keys_length (JArr r xs) = length xs"
| "keys_length (JStr s) = length s"
| "keys_length v = 0"

text \<open>\<^verbatim>\<open>Array.prototype.findIndex\<close> (\<open>None\<close> for -1) and \<^verbatim>\<open>splice(idx, 1)\<close>.\<close>

fun findIndex :: "('a \<Rightarrow> bool) \<Rightarrow> 'a list \<Rightarrow> nat option" where
  "findIndex P [] = None"
| "findIndex P (x # xs) =
     (if P x then Some 0 else map_option Suc (findIndex P xs))"

definition splice1 :: "nat \<Rightarrow> 'a list \<Rightarrow> 'a list" where
  "splice1 idx xs = take idx xs @ drop (Suc idx) xs"

subsection \<open>The state of the module and its effects\<close>

record user =
  uid :: json
  uname :: json

type_synonym conn = nat

datatype readyState = CONNECTING | OPEN | CLOSING | CLOSED

datatype payload =
    Roster "user list"
  | Raw string bool
  | History "json list"

datatype level = Info | Error

datatype reply = ReplyError string | ReplyOk user

datatype effect =
    Sent conn payload
  | Wrote "user list"
  | Logged level string
  | Replied nat reply

text \<open>
  The exceptions that leave a handler: the SyntaxError of \<^verbatim>\<open>JSON.parse\<close>, the
  TypeError of a property read on \<^verbatim>\<open>null\<close> or \<^verbatim>\<open>undefined\<close>, and the error
  (\<^verbatim>\<open>ERR_HTTP_HEADERS_SENT\<close>) of \<^verbatim>\<open>response.send\<close> on a response that has been
  sent already.
\<close>

datatype exn = SyntaxError | TypeError | HeadersSent

text \<open>
  \<open>timeouts\<close> is the timer queue of the runtime: the armed timeouts, each with its
  handle and the \<^verbatim>\<open>userId\<close> its callback has captured. \<open>nextTimer\<close> is the next
  fresh handle. \<open>clients\<close> is \<^verbatim>\<open>wsServer.clients\<close> with each socket's
  \<^verbatim>\<open>readyState\<close>. \<^verbatim>\<open>connectedUsers\<close> is never written, so it stays empty and
  its \<^verbatim>\<open>delete\<close> calls do nothing: it has no field.
\<close>

record server =
  userState :: "user list"
  messages :: "json list"
  deletionTimers :: "key \<rightharpoonup> nat"
  timeouts :: "(nat \<times> json) list"
  nextTimer :: nat
  clients :: "(conn \<times> readyState) list"
  currentUserId :: "conn \<Rightarrow> json"
  trace :: "effect list"

datatype result = Returned server | Threw exn server

fun state_of :: "result \<Rightarrow> server" where
  "state_of (Returned st) = st"
| "state_of (Threw x st) = st"

definition emit :: "effect \<Rightarrow> server \<Rightarrow> server" where
  "emit e st = st\<lparr>trace := trace st @ [e]\<rparr>"

definition open_clients :: "server \<Rightarrow> conn list" where
  "open_clients st = map fst (filter (\<lambda>cr. snd cr = OPEN) (clients st))"

text \<open>
  \<^verbatim>\<open>[...wsServer.clients].filter((o) => o.readyState === WebSocket.OPEN).forEach((o) => o.send(p))\<close>
\<close>

definition send_all :: "payload \<Rightarrow> server \<Rightarrow> server" where
  "send_all p st = st\<lparr>trace := trace st @ map (\<lambda>c. Sent c p) (open_clients st)\<rparr>"

text \<open>The frames the module has sent, in order, with their receivers.\<close>

fun deliveries :: "effect list \<Rightarrow> (conn \<times> payload) list" where
  "deliveries [] = []"
| "deliveries (Sent c p # es) = (c, p) # deliveries es"
| "deliveries (e # es) = deliveries es"

text \<open>
  \<^verbatim>\<open>saveUserState\<close>: the roster is written to the file; the outcome of the write is
  logged and changes nothing else.
\<close>

definition saveUserState :: "server \<Rightarrow> server" where
  "saveUserState st = emit (Wrote (userState st)) st"

definition broadcastUserState :: "server \<Rightarrow> server" where
  "broadcastUserState st =
     emit (Logged Info ''Broadcasted updated userState to all clients'')
       (send_all (Roster (userState st)) st)"

subsection \<open>The deletion timers\<close>

definition clearTimeout :: "nat \<Rightarrow> server \<Rightarrow> server" where
  "clearTimeout h st = st\<lparr>timeouts := filter (\<lambda>hu. fst hu \<noteq> h) (timeouts st)\<rparr>"

text \<open>\<^verbatim>\<open>setTimeout\<close> arms a timeout under a fresh handle and returns the handle.\<close>

definition setTimeout :: "json \<Rightarrow> server \<Rightarrow> nat \<times> server" where
  "setTimeout userId st =
     (nextTimer st,
      st\<lparr>timeouts := timeouts st @ [(nextTimer st, userId)], nextTimer := Suc (nextTimer st)\<rparr>)"

definition scheduleDeletion :: "json \<Rightarrow> server \<Rightarrow> server" where
  "scheduleDeletion userId st =
     (let st1 = (case deletionTimers st (key_of userId) of
                   Some h \<Rightarrow> clearTimeout h st
                 | None \<Rightarrow> st);
          (h', st2) = setTimeout userId st1
      in st2\<lparr>deletionTimers := (deletionTimers st2)(key_of userId \<mapsto> h')\<rparr>)"

definition cancelDeletion :: "json \<Rightarrow> server \<Rightarrow> server" where
  "cancelDeletion userId st =
     (case deletionTimers st (key_of userId) of
        Some h \<Rightarrow>
          emit (Logged Info ''Deletion cancelled for user'')
            ((clearTimeout h st)\<lparr>deletionTimers := (deletionTimers st)(key_of userId := None)\<rparr>)
      | None \<Rightarrow> st)"

text \<open>The callback that \<^verbatim>\<open>scheduleDeletion\<close> passes to \<^verbatim>\<open>setTimeout\<close>.\<close>

definition deletion_callback :: "json \<Rightarrow> server \<Rightarrow> server" where
  "deletion_callback userId st =
     (let st1 = (case findIndex (\<lambda>u. strict_eq (uid u) userId) (userState st) of
                   Some idx \<Rightarrow>
                     emit (Logged Info ''User deleted after 1 minute timeout'')
                       (broadcastUserState
                         (saveUserState (st\<lparr>userState := splice1 idx (userState st)\<rparr>)))
                 | None \<Rightarrow> st)
      in st1\<lparr>deletionTimers := (deletionTimers st1)(key_of userId := None)\<rparr>)"

text \<open>
  The runtime fires the armed timeout \<open>h\<close>: the timeout leaves the queue (it fires
  once) and its callback runs. A handle that is not armed fires nothing.
\<close>

definition fire :: "nat \<Rightarrow> server \<Rightarrow> server" where
  "fire h st =
     (case map_of (timeouts st) h of
        Some userId \<Rightarrow> deletion_callback userId (clearTimeout h st)
      | None \<Rightarrow> st)"

subsection \<open>The registration handler\<close>

text \<open>
  One call of \<^verbatim>\<open>response.status(s).send(...).end()\<close> (status 200 when the source
  sets none): \<open>Replied s r\<close> when nothing has been sent on the response yet. On a
  response that has been sent already, \<^verbatim>\<open>send\<close> throws and no second reply goes out.
\<close>

definition respond :: "bool \<Rightarrow> nat \<Rightarrow> reply \<Rightarrow> server \<Rightarrow> result" where
  "respond headersSent status r st =
     (if headersSent then Threw HeadersSent st else Returned (emit (Replied status r) st))"

text \<open>
  \<^verbatim>\<open>app.post("/new-user", ...)\<close>, with the parsed request body and the value of
  \<^verbatim>\<open>randomUUID()\<close> as inputs. The first \<^verbatim>\<open>if\<close> has no \<^verbatim>\<open>return\<close>: after
  the 400 reply the handler goes on, and the \<^verbatim>\<open>send\<close> it reaches at the end of
  either branch throws.
\<close>

definition new_user :: "json \<Rightarrow> string \<Rightarrow> server \<Rightarrow> result" where
  "new_user body uuid st =
     (if nullish body then Threw TypeError st
      else
        let headersSent = (keys_length body = 0);
            st1 = (if headersSent
                   then emit (Replied 400 (ReplyError ''This name is already taken!'')) st
                   else st);
            name = field body ''name'';
            isExist = find (\<lambda>u. strict_eq (uname u) name) (userState st1)
        in if isExist = None then
             let newUser = \<lparr>uid = JStr uuid, uname = name\<rparr>;
                 st2 = st1\<lparr>userState := userState st1 @ [newUser]\<rparr>;
                 st3 = broadcastUserState (saveUserState st2);
                 st4 = emit (Logged Info ''New user created'') st3
             in respond headersSent 200 (ReplyOk newUser) st4
           else
             respond headersSent 409 (ReplyError ''This name is already taken!'')
               (emit (Logged Error ''User with this name already exist'') st1))"

text \<open>\<^verbatim>\<open>app.post("/verify-user", ...)\<close>: the status of the reply.\<close>

definition verify_user :: "json \<Rightarrow> server \<Rightarrow> nat" where
  "verify_user body st =
     (if list_ex (\<lambda>u. strict_eq (uid u) (field body ''id'') \<and> strict_eq (uname u) (field body ''name''))
           (userState st)
      then 200 else 404)"

subsection \<open>The handlers of a connection\<close>

text \<open>
  The body of the \<^verbatim>\<open>connection\<close> listener after its two \<^verbatim>\<open>ws.on\<close> calls:
  \<^verbatim>\<open>currentUserId\<close> starts as \<^verbatim>\<open>null\<close>, and the roster goes to the open clients.
\<close>

definition on_connection :: "conn \<Rightarrow> server \<Rightarrow> server" where
  "on_connection ws st =
     send_all (Roster (userState st)) (st\<lparr>currentUserId := (currentUserId st)(ws := JNull)\<rparr>)"

text \<open>
  The \<^verbatim>\<open>message\<close> listener from its second statement on, for the value \<open>r\<close> that
  \<^verbatim>\<open>JSON.parse(msg)\<close> has returned. The branches are those of the source, in its
  order; \<^verbatim>\<open>receivedMSG.user\<close> is the one unguarded property read.
\<close>

definition announce :: "json \<Rightarrow> conn \<Rightarrow> server \<Rightarrow> server" where
  "announce r ws st =
     (if truthy (field r ''user'') \<and> truthy (field (field r ''user'') ''id'')
      then
        let st1 = st\<lparr>currentUserId := (currentUserId st)(ws := field (field r ''user'') ''id'')\<rparr>
        in cancelDeletion (currentUserId st1 ws) st1
      else st)"

definition exit_branch :: "conn \<Rightarrow> server \<Rightarrow> server" where
  "exit_branch ws st =
     (let st1 = (if truthy (currentUserId st ws)
                 then scheduleDeletion (currentUserId st ws) st
                 else st)
      in emit (Logged Info ''User exit scheduled for deletion'')
           (send_all (Roster (userState st1)) st1))"

definition send_branch :: "json \<Rightarrow> string \<Rightarrow> bool \<Rightarrow> server \<Rightarrow> server" where
  "send_branch r msg isBinary st =
     emit (Logged Info ''Message sent to all users'')
       (send_all (Raw msg isBinary) (st\<lparr>messages := messages st @ [r]\<rparr>))"

definition join_branch :: "json \<Rightarrow> conn \<Rightarrow> server \<Rightarrow> server" where
  "join_branch r ws st =
     (if truthy (field r ''user'') then
        let st1 = st\<lparr>currentUserId := (currentUserId st)(ws := field (field r ''user'') ''id'')\<rparr>;
            st2 = cancelDeletion (currentUserId st1 ws) st1;
            st3 = emit (Logged Info ''User joined'') st2
        in if length (messages st3) > 0
           then emit (Sent ws (History (messages st3))) st3
           else st3
      else st)"

definition received :: "json \<Rightarrow> string \<Rightarrow> bool \<Rightarrow> conn \<Rightarrow> server \<Rightarrow> result" where
  "received r msg isBinary ws st =
     (let st1 = emit (Logged Info ''Message received'') st
      in if nullish r then Threw TypeError st1
         else
           let st2 = announce r ws st1
           in if field r ''type'' = JStr ''exit'' then Returned (exit_branch ws st2)
              else
                let st3 = (if field r ''type'' = JStr ''send''
                           then send_branch r msg isBinary st2 else st2);
                    st4 = (if field r ''type'' = JStr ''join''
                           then join_branch r ws st3 else st3)
                in Returned st4)"

text \<open>
  The \<^verbatim>\<open>message\<close> listener. \<^verbatim>\<open>JSON.parse\<close> is a parameter: \<open>parse msg\<close> is
  \<open>None\<close> where \<^verbatim>\<open>JSON.parse(msg)\<close> throws its SyntaxError. The source has no
  \<^verbatim>\<open>try\<close> around the call, so the exception leaves the listener.
\<close>

definition on_message ::
  "(string \<Rightarrow> json option) \<Rightarrow> string \<Rightarrow> bool \<Rightarrow> conn \<Rightarrow> server \<Rightarrow> result" where
  "on_message parse msg isBinary ws st =
     (case parse msg of
        None \<Rightarrow> Threw SyntaxError st
      | Some r \<Rightarrow> received r msg isBinary ws st)"

text \<open>The \<^verbatim>\<open>close\<close> listener.\<close>

definition on_close :: "conn \<Rightarrow> server \<Rightarrow> server" where
  "on_close ws st =
     (if truthy (currentUserId st ws) then
        send_all (Roster (userState st))
          (emit (Logged Info ''User disconnected, deletion scheduled'')
            (scheduleDeletion (currentUserId st ws) st))
      else st)"

subsection \<open>Runs of the server\<close>

text \<open>
  The events the runtime delivers to the module. Before it emits \<^verbatim>\<open>connection\<close>
  the socket library has added the open socket to \<^verbatim>\<open>wsServer.clients\<close>; before the
  \<^verbatim>\<open>close\<close> listener of the module runs, the socket is closed and the library has
  removed it from the set. An exception that leaves a listener, or that rejects the
  promise of the asynchronous registration handler, is caught nowhere in the module, so a
  run ends at the first one.
\<close>

datatype event =
    Connect conn
  | Message conn string bool
  | Close conn
  | Timeout nat
  | NewUser json string

definition step :: "(string \<Rightarrow> json option) \<Rightarrow> event \<Rightarrow> server \<Rightarrow> result" where
  "step parse ev st =
     (case ev of
        Connect ws \<Rightarrow> Returned (on_connection ws (st\<lparr>clients := clients st @ [(ws, OPEN)]\<rparr>))
      | Message ws msg isBinary \<Rightarrow> on_message parse msg isBinary ws st
      | Close ws \<Rightarrow>
          Returned (on_close ws (st\<lparr>clients := filter (\<lambda>cr. fst cr \<noteq> ws) (clients st)\<rparr>))
      | Timeout h \<Rightarrow> Returned (fire h st)
      | NewUser body uuid \<Rightarrow> new_user body uuid st)"

fun run :: "(string \<Rightarrow> json option) \<Rightarrow> event list \<Rightarrow> server \<Rightarrow> result" where
  "run parse [] st = Returned st"
| "run parse (ev # evs) st =
     (case step parse ev st of
        Returned st' \<Rightarrow> run parse evs st'
      | Threw x st' \<Rightarrow> Threw x st')"

text \<open>
  The state after the module has been loaded: \<open>roster\<close> is what the roster file held
  (empty when there is none).
\<close>

definition boot :: "user list \<Rightarrow> server" where
  "boot roster =
     \<lparr>userState = roster, messages = [], deletionTimers = Map.empty, timeouts = [],
      nextTimer = 0, clients = [], currentUserId = (\<lambda>ws. JNull), trace = []\<rparr>"

subsection \<open>The variant \<^verbatim>\<open>src/server.js\<close>\<close>

text \<open>
  The definitions with the suffix \<open>_js\<close> are those of \<^verbatim>\<open>src/server.js\<close>, where
  that file differs from the one above. Its timer callback removes the identity and
  writes the roster, and sends nothing; \<^verbatim>\<open>scheduleDeletion\<close> and
  \<^verbatim>\<open>cancelDeletion\<close> are the same but for the length of the timeout.
\<close>

definition deletion_callback_js :: "json \<Rightarrow> server \<Rightarrow> server" where
  "deletion_callback_js userId st =
     (let st1 = (case findIndex (\<lambda>u. strict_eq (uid u) userId) (userState st) of
                   Some idx \<Rightarrow>
                     emit (Logged Info ''User deleted after 1 minute timeout'')
                       (saveUserState (st\<lparr>userState := splice1 idx (userState st)\<rparr>))
                 | None \<Rightarrow> st)
      in st1\<lparr>deletionTimers := (deletionTimers st1)(key_of userId := None)\<rparr>)"

definition fire_js :: "nat \<Rightarrow> server \<Rightarrow> server" where
  "fire_js h st =
     (case map_of (timeouts st) h of
        Some userId \<Rightarrow> deletion_callback_js userId (clearTimeout h st)
      | None \<Rightarrow> st)"

text \<open>The registration handler of \<^verbatim>\<open>src/server.js\<close>: no \<^verbatim>\<open>broadcastUserState\<close> call.\<close>

definition new_user_js :: "json \<Rightarrow> string \<Rightarrow> server \<Rightarrow> result" where
  "new_user_js body uuid st =
     (if nullish body then Threw TypeError st
      else
        let headersSent = (keys_length body = 0);
            st1 = (if headersSent
                   then emit (Replied 400 (ReplyError ''This name is already taken!'')) st
                   else st);
            name = field body ''name'';
            isExist = find (\<lambda>u. strict_eq (uname u) name) (userState st1)
        in if isExist = None then
             let newUser = \<lparr>uid = JStr uuid, uname = name\<rparr>;
                 st2 = st1\<lparr>userState := userState st1 @ [newUser]\<rparr>;
                 st3 = saveUserState st2;
                 st4 = emit (Logged Info ''New user created'') st3
             in respond headersSent 200 (ReplyOk newUser) st4
           else
             respond headersSent 409 (ReplyError ''This name is already taken!'')
               (emit (Logged Error ''User with this name already exist'') st1))"

text \<open>
  The \<^verbatim>\<open>message\<close> listener of \<^verbatim>\<open>src/server.js\<close>: no history, so a send is only
  sent on and a join only associates the identity. The exit branch, the \<^verbatim>\<open>close\<close>
  and \<^verbatim>\<open>connection\<close> listeners are those above.
\<close>

definition send_branch_js :: "string \<Rightarrow> bool \<Rightarrow> server \<Rightarrow> server" where
  "send_branch_js msg isBinary st =
     emit (Logged Info ''Message sent to all users'') (send_all (Raw msg isBinary) st)"

definition join_branch_js :: "json \<Rightarrow> conn \<Rightarrow> server \<Rightarrow> server" where
  "join_branch_js r ws st =
     (if truthy (field r ''user'') then
        let st1 = st\<lparr>currentUserId := (currentUserId st)(ws := field (field r ''user'') ''id'')\<rparr>;
            st2 = cancelDeletion (currentUserId st1 ws) st1
        in emit (Logged Info ''User joined'') st2
      else st)"

definition received_js :: "json \<Rightarrow> string \<Rightarrow> bool \<Rightarrow> conn \<Rightarrow> server \<Rightarrow> result" where
  "received_js r msg isBinary ws st =
     (let st1 = emit (Logged Info ''Message received'') st
      in if nullish r then Threw TypeError st1
         else
           let st2 = announce r ws st1
           in if field r ''type'' = JStr ''exit'' then Returned (exit_branch ws st2)
              else
                let st3 = (if field r ''type'' = JStr ''send''
                           then send_branch_js msg isBinary st2 else st2);
                    st4 = (if field r ''type'' = JStr ''join''
                           then join_branch_js r ws st3 else st3)
                in Returned st4)"

definition on_message_js ::
  "(string \<Rightarrow> json option) \<Rightarrow> string \<Rightarrow> bool \<Rightarrow> conn \<Rightarrow> server \<Rightarrow> result" where
  "on_message_js parse msg isBinary ws st =
     (case parse msg of
        None \<Rightarrow> Threw SyntaxError st
      | Some r \<Rightarrow> received_js r msg isBinary ws st)"

definition step_js :: "(string \<Rightarrow> json option) \<Rightarrow> event \<Rightarrow> server \<Rightarrow> result" where
  "step_js parse ev st =
     (case ev of
        Connect ws \<Rightarrow> Returned (on_connection ws (st\<lparr>clients := clients st @ [(ws, OPEN)]\<rparr>))
      | Message ws msg isBinary \<Rightarrow> on_message_js parse msg isBinary ws st
      | Close ws \<Rightarrow>
          Returned (on_close ws (st\<lparr>clients := filter (\<lambda>cr. fst cr \<noteq> ws) (clients st)\<rparr>))
      | Timeout h \<Rightarrow> Returned (fire_js h st)
      | NewUser body uuid \<Rightarrow> new_user_js body uuid st)"

fun run_js :: "(string \<Rightarrow> json option) \<Rightarrow> event list \<Rightarrow> server \<Rightarrow> result" where
  "run_js parse [] st = Returned st"
| "run_js parse (ev # evs) st =
     (case step_js parse ev st of
        Returned st' \<Rightarrow> run_js parse evs st'
      | Threw x st' \<Rightarrow> Threw x st')"

subsection \<open>Observations on a state and on a run\<close>

text \<open>The armed timeouts whose callback is to delete the identity with key \<open>k\<close>.\<close>

definition pending :: "key \<Rightarrow> server \<Rightarrow> (nat \<times> json) list" where
  "pending k st = filter (\<lambda>hu. key_of (snd hu) = k) (timeouts st)"

text \<open>
  The timer queue and \<^verbatim>\<open>deletionTimers\<close> agree: handles are not reused, and every
  armed timeout is the one that the map records for its identity.
\<close>

definition timers_ok :: "server \<Rightarrow> bool" where
  "timers_ok st \<longleftrightarrow>
     distinct (map fst (timeouts st)) \<and>
     (\<forall>hu \<in> set (timeouts st).
        fst hu < nextTimer st \<and> deletionTimers st (key_of (snd hu)) = Some (fst hu))"

text \<open>No two identities of a roster have the same name under \<^verbatim>\<open>===\<close>.\<close>

definition names_ok :: "user list \<Rightarrow> bool" where
  "names_ok roster = distinct (map (\<lambda>x. key_of (uname x)) roster)"


text \<open>The roster holds an identity whose id is \<open>u\<close> under \<^verbatim>\<open>===\<close>.\<close>

definition has_identity :: "json \<Rightarrow> user list \<Rightarrow> bool" where
  "has_identity u roster = list_ex (\<lambda>x. strict_eq (uid x) u) roster"

text \<open>
  The converse of \<open>timers_ok\<close>: every entry of \<^verbatim>\<open>deletionTimers\<close> is the handle of
  an armed timeout for that identity.
\<close>

definition timers_recorded :: "server \<Rightarrow> bool" where
  "timers_recorded st \<longleftrightarrow>
     (\<forall>k h. deletionTimers st k = Some h \<longrightarrow>
        (\<exists>u. (h, u) \<in> set (timeouts st) \<and> key_of u = k))"

text \<open>
  From \<open>st\<close> to \<open>st'\<close> no handle is armed again: a timeout armed in \<open>st'\<close> was
  armed in \<open>st\<close> or has a handle that was fresh in \<open>st\<close>.
\<close>

definition timers_grow :: "server \<Rightarrow> server \<Rightarrow> bool" where
  "timers_grow st st' \<longleftrightarrow>
     nextTimer st \<le> nextTimer st' \<and>
     (\<forall>hu \<in> set (timeouts st'). hu \<in> set (timeouts st) \<or> nextTimer st \<le> fst hu)"

text \<open>
  Two states agree on everything but the history and the trace. The two variants differ
  in those two fields only.
\<close>

definition same_core :: "server \<Rightarrow> server \<Rightarrow> bool" where
  "same_core a b \<longleftrightarrow>
     userState a = userState b \<and> deletionTimers a = deletionTimers b \<and>
     timeouts a = timeouts b \<and> nextTimer a = nextTimer b \<and>
     clients a = clients b \<and> currentUserId a = currentUserId b"

text \<open>
  The event concerns the identity with key \<open>k\<close>: a frame whose user names it (an
  announcement or a join, which cancel its eviction), an exit frame or the close of a
  connection whose \<^verbatim>\<open>currentUserId\<close> is it (which schedule its eviction anew), or the
  firing of a timeout armed for it.
\<close>

definition touches :: "(string \<Rightarrow> json option) \<Rightarrow> key \<Rightarrow> server \<Rightarrow> event \<Rightarrow> bool" where
  "touches parse k st ev =
     (case ev of
        Connect ws \<Rightarrow> False
      | Message ws msg isBinary \<Rightarrow>
          (case parse msg of
             None \<Rightarrow> False
           | Some r \<Rightarrow>
               (truthy (field r ''user'') \<and> key_of (field (field r ''user'') ''id'') = k) \<or>
               (field r ''type'' = JStr ''exit'' \<and> key_of (currentUserId st ws) = k))
      | Close ws \<Rightarrow> key_of (currentUserId st ws) = k
      | Timeout h \<Rightarrow> (case map_of (timeouts st) h of Some v \<Rightarrow> key_of v = k | None \<Rightarrow> False)
      | NewUser body uuid \<Rightarrow> False)"

text \<open>
  No event of the run concerns the identity with key \<open>k\<close>, each event taken in the state
  in which it arrives.
\<close>

fun undisturbed :: "(string \<Rightarrow> json option) \<Rightarrow> key \<Rightarrow> event list \<Rightarrow> server \<Rightarrow> bool" where
  "undisturbed parse k [] st = True"
| "undisturbed parse k (ev # evs) st =
     (\<not> touches parse k st ev \<and>
      (case step parse ev st of
         Returned st' \<Rightarrow> undisturbed parse k evs st'
       | Threw x st' \<Rightarrow> True))"

fun undisturbed_js :: "(string \<Rightarrow> json option) \<Rightarrow> key \<Rightarrow> event list \<Rightarrow> server \<Rightarrow> bool" where
  "undisturbed_js parse k [] st = True"
| "undisturbed_js parse k (ev # evs) st =
     (\<not> touches parse k st ev \<and>
      (case step_js parse ev st of
         Returned st' \<Rightarrow> undisturbed_js parse k evs st'
       | Threw x st' \<Rightarrow> True))"

section \<open>Properties\<close>

subsection \<open>What each operation leaves alone\<close>

lemma emit_fields [simp]:
  "userState (emit e st) = userState st"
  "messages (emit e st) = messages st"
  "deletionTimers (emit e st) = deletionTimers st"
  "timeouts (emit e st) = timeouts st"
  "nextTimer (emit e st) = nextTimer st"
  "clients (emit e st) = clients st"
  "currentUserId (emit e st) = currentUserId st"
  "trace (emit e st) = trace st @ [e]"
  by (simp_all add: emit_def)

lemma open_clients_emit [simp]: "open_clients (emit e st) = open_clients st"
  by (simp add: open_clients_def)

lemma send_all_fields [simp]:
  "userState (send_all p st) = userState st"
  "messages (send_all p st) = messages st"
  "deletionTimers (send_all p st) = deletionTimers st"
  "timeouts (send_all p st) = timeouts st"
  "nextTimer (send_all p st) = nextTimer st"
  "clients (send_all p st) = clients st"
  "currentUserId (send_all p st) = currentUserId st"
  "trace (send_all p st) = trace st @ map (\<lambda>c. Sent c p) (open_clients st)"
  by (simp_all add: send_all_def)

lemma open_clients_send_all [simp]: "open_clients (send_all p st) = open_clients st"
  by (simp add: open_clients_def)

lemma saveUserState_fields [simp]:
  "userState (saveUserState st) = userState st"
  "messages (saveUserState st) = messages st"
  "deletionTimers (saveUserState st) = deletionTimers st"
  "timeouts (saveUserState st) = timeouts st"
  "nextTimer (saveUserState st) = nextTimer st"
  "clients (saveUserState st) = clients st"
  "currentUserId (saveUserState st) = currentUserId st"
  "trace (saveUserState st) = trace st @ [Wrote (userState st)]"
  by (simp_all add: saveUserState_def)

lemma open_clients_saveUserState [simp]: "open_clients (saveUserState st) = open_clients st"
  by (simp add: open_clients_def)

lemma broadcastUserState_fields [simp]:
  "userState (broadcastUserState st) = userState st"
  "messages (broadcastUserState st) = messages st"
  "deletionTimers (broadcastUserState st) = deletionTimers st"
  "timeouts (broadcastUserState st) = timeouts st"
  "nextTimer (broadcastUserState st) = nextTimer st"
  "clients (broadcastUserState st) = clients st"
  "currentUserId (broadcastUserState st) = currentUserId st"
  "trace (broadcastUserState st) =
     trace st @ map (\<lambda>c. Sent c (Roster (userState st))) (open_clients st)
       @ [Logged Info ''Broadcasted updated userState to all clients'']"
  by (simp_all add: broadcastUserState_def)

lemma deliveries_append [simp]: "deliveries (xs @ ys) = deliveries xs @ deliveries ys"
  by (induction xs rule: deliveries.induct) simp_all

lemma deliveries_Sent_map [simp]: "deliveries (map (\<lambda>c. Sent c p) cs) = map (\<lambda>c. (c, p)) cs"
  by (induction cs) simp_all

lemma open_clients_update [simp]:
  "open_clients (st\<lparr>userState := a\<rparr>) = open_clients st"
  "open_clients (st\<lparr>messages := b\<rparr>) = open_clients st"
  "open_clients (st\<lparr>deletionTimers := c\<rparr>) = open_clients st"
  "open_clients (st\<lparr>timeouts := d\<rparr>) = open_clients st"
  "open_clients (st\<lparr>nextTimer := e\<rparr>) = open_clients st"
  "open_clients (st\<lparr>currentUserId := f\<rparr>) = open_clients st"
  "open_clients (st\<lparr>trace := g\<rparr>) = open_clients st"
  by (simp_all add: open_clients_def)


lemma clearTimeout_fields [simp]:
  "userState (clearTimeout h st) = userState st"
  "messages (clearTimeout h st) = messages st"
  "deletionTimers (clearTimeout h st) = deletionTimers st"
  "timeouts (clearTimeout h st) = filter (\<lambda>hu. fst hu \<noteq> h) (timeouts st)"
  "nextTimer (clearTimeout h st) = nextTimer st"
  "clients (clearTimeout h st) = clients st"
  "currentUserId (clearTimeout h st) = currentUserId st"
  "trace (clearTimeout h st) = trace st"
  by (simp_all add: clearTimeout_def)

lemma cancelDeletion_fields [simp]:
  "userState (cancelDeletion u st) = userState st"
  "messages (cancelDeletion u st) = messages st"
  "clients (cancelDeletion u st) = clients st"
  "currentUserId (cancelDeletion u st) = currentUserId st"
  "nextTimer (cancelDeletion u st) = nextTimer st"
  "deliveries (trace (cancelDeletion u st)) = deliveries (trace st)"
  by (simp_all add: cancelDeletion_def split: option.splits)

lemma cancelDeletion_timers:
  "deletionTimers (cancelDeletion u st) = (deletionTimers st)(key_of u := None)"
  "timeouts (cancelDeletion u st) =
     (case deletionTimers st (key_of u) of
        Some h \<Rightarrow> filter (\<lambda>hu. fst hu \<noteq> h) (timeouts st)
      | None \<Rightarrow> timeouts st)"
  by (auto simp add: cancelDeletion_def split: option.splits)

lemma open_clients_cancelDeletion [simp]: "open_clients (cancelDeletion u st) = open_clients st"
  by (simp add: open_clients_def)

lemma scheduleDeletion_fields [simp]:
  "userState (scheduleDeletion u st) = userState st"
  "messages (scheduleDeletion u st) = messages st"
  "clients (scheduleDeletion u st) = clients st"
  "currentUserId (scheduleDeletion u st) = currentUserId st"
  "trace (scheduleDeletion u st) = trace st"
  "nextTimer (scheduleDeletion u st) = Suc (nextTimer st)"
  "deletionTimers (scheduleDeletion u st) = (deletionTimers st)(key_of u \<mapsto> nextTimer st)"
  by (simp_all add: scheduleDeletion_def setTimeout_def split: option.splits)

lemma scheduleDeletion_timeouts:
  "timeouts (scheduleDeletion u st) =
     (case deletionTimers st (key_of u) of
        Some h \<Rightarrow> filter (\<lambda>hu. fst hu \<noteq> h) (timeouts st)
      | None \<Rightarrow> timeouts st) @ [(nextTimer st, u)]"
  by (simp add: scheduleDeletion_def setTimeout_def split: option.splits)

lemma open_clients_scheduleDeletion [simp]: "open_clients (scheduleDeletion u st) = open_clients st"
  by (simp add: open_clients_def)

lemma announce_fields [simp]:
  "userState (announce r ws st) = userState st"
  "messages (announce r ws st) = messages st"
  "clients (announce r ws st) = clients st"
  "nextTimer (announce r ws st) = nextTimer st"
  "deliveries (trace (announce r ws st)) = deliveries (trace st)"
  by (simp_all add: announce_def Let_def)

lemma open_clients_announce [simp]: "open_clients (announce r ws st) = open_clients st"
  by (simp add: open_clients_def)




lemma send_branch_fields [simp]:
  "userState (send_branch r msg b st) = userState st"
  "messages (send_branch r msg b st) = messages st @ [r]"
  "clients (send_branch r msg b st) = clients st"
  "currentUserId (send_branch r msg b st) = currentUserId st"
  "nextTimer (send_branch r msg b st) = nextTimer st"
  "deletionTimers (send_branch r msg b st) = deletionTimers st"
  "timeouts (send_branch r msg b st) = timeouts st"
  "deliveries (trace (send_branch r msg b st)) =
     deliveries (trace st) @ map (\<lambda>c. (c, Raw msg b)) (open_clients st)"
  by (simp_all add: send_branch_def)

lemma join_branch_fields [simp]:
  "userState (join_branch r ws st) = userState st"
  "messages (join_branch r ws st) = messages st"
  "clients (join_branch r ws st) = clients st"
  "nextTimer (join_branch r ws st) = nextTimer st"
  by (simp_all add: join_branch_def Let_def)





lemma state_of_respond [simp]:
  "state_of (respond headersSent status r st) =
     (if headersSent then st else emit (Replied status r) st)"
  by (simp add: respond_def)

subsection \<open>Frames that are not JSON\<close>

text \<open>
  C1 (the claim: a frame that is not valid JSON is logged and dropped, the connection
  stays open, no shared state changes, the process goes on). In the code the SyntaxError
  of \<^verbatim>\<open>JSON.parse\<close> leaves the listener: the state is unchanged indeed, but nothing
  is logged (the trace is unchanged too) and the handler has not returned; no handler
  of the module catches the exception, so the run of the server ends there, whatever
  events were still to come.
\<close>

theorem malformed_frame_throws:
  assumes "parse msg = None"
  shows "on_message parse msg isBinary ws st = Threw SyntaxError st \<and>
         run parse (Message ws msg isBinary # evs) st = Threw SyntaxError st"
  using assms by (simp add: on_message_def step_def)

theorem malformed_frame_throws_witness:
  "on_message (\<lambda>s. None) ''{oops'' False 1 (boot []) = Threw SyntaxError (boot []) \<and>
   run (\<lambda>s. None) [Message 1 ''{oops'' False, Connect 2] (boot []) = Threw SyntaxError (boot [])"
  using malformed_frame_throws [of "\<lambda>s. None" "''{oops''" False 1 "boot []" "[Connect 2]"]
  by simp

subsection \<open>Registration with an empty body\<close>

lemma field_of_empty: "keys_length body = 0 \<Longrightarrow> field body k = JUndefined"
  by (cases body) simp_all

text \<open>
  C2 (the claim: a registration request with an empty body gets a bad-request reply and
  changes nothing). In the code the handler replies 400 and goes on: the body has no
  \<^verbatim>\<open>name\<close>, so unless the roster already holds an identity without a name, an
  identity with the name \<^verbatim>\<open>undefined\<close> is appended, the roster is written and
  broadcast, and the second \<^verbatim>\<open>response.send\<close>, with the new identity, throws: the
  caller has got the 400 only, and the handler ends in an exception. The handler of
  \<^verbatim>\<open>src/server.js\<close> does the same without the broadcast.
\<close>

theorem new_user_empty_body:
  assumes "\<not> nullish body" and "keys_length body = 0"
    and "find (\<lambda>u. strict_eq (uname u) JUndefined) (userState st) = None"
  shows "(\<exists>st'. new_user body uuid st = Threw HeadersSent st' \<and>
     userState st' = userState st @ [\<lparr>uid = JStr uuid, uname = JUndefined\<rparr>] \<and>
     trace st' = trace st @
       [Replied 400 (ReplyError ''This name is already taken!''),
        Wrote (userState st @ [\<lparr>uid = JStr uuid, uname = JUndefined\<rparr>])]
       @ map (\<lambda>c. Sent c (Roster (userState st @ [\<lparr>uid = JStr uuid, uname = JUndefined\<rparr>])))
           (open_clients st)
       @ [Logged Info ''Broadcasted updated userState to all clients'',
          Logged Info ''New user created'']) \<and>
   (\<exists>sj. new_user_js body uuid st = Threw HeadersSent sj \<and>
     userState sj = userState st @ [\<lparr>uid = JStr uuid, uname = JUndefined\<rparr>] \<and>
     trace sj = trace st @
       [Replied 400 (ReplyError ''This name is already taken!''),
        Wrote (userState st @ [\<lparr>uid = JStr uuid, uname = JUndefined\<rparr>]),
        Logged Info ''New user created''])"
  using assms
  by (simp add: new_user_def new_user_js_def respond_def field_of_empty Let_def open_clients_def)

theorem new_user_empty_body_witness:
  "(\<exists>st'. new_user (JObj 0 []) ''B'' (boot []) = Threw HeadersSent st') \<and>
   userState (state_of (new_user (JObj 0 []) ''B'' (boot []))) =
     [\<lparr>uid = JStr ''B'', uname = JUndefined\<rparr>] \<and>
   trace (state_of (new_user (JObj 0 []) ''B'' (boot []))) =
      [Replied 400 (ReplyError ''This name is already taken!''),
       Wrote [\<lparr>uid = JStr ''B'', uname = JUndefined\<rparr>],
       Logged Info ''Broadcasted updated userState to all clients'',
       Logged Info ''New user created''] \<and>
   trace (state_of (new_user_js (JObj 0 []) ''B'' (boot []))) =
      [Replied 400 (ReplyError ''This name is already taken!''),
       Wrote [\<lparr>uid = JStr ''B'', uname = JUndefined\<rparr>],
       Logged Info ''New user created'']"
  using new_user_empty_body [of "JObj 0 []" "boot []" "''B''"]
  by (auto simp add: boot_def open_clients_def)

subsection \<open>Admitting a connection\<close>

text \<open>
  C6 (the claim: on admit the roster snapshot goes to the new connection and to it
  alone). The listener sends the snapshot to every open client: with connection 1 open,
  the admit of connection 2 sends it to both.
\<close>

theorem admit_counterexample:
  "deliveries (trace (on_connection 2 ((boot [])\<lparr>clients := [(1, OPEN), (2, OPEN)]\<rparr>))) =
     [(1, Roster []), (2, Roster [])]"
  by (simp add: on_connection_def boot_def open_clients_def)

text \<open>
  C6, amended: on admit the roster snapshot is sent at once to every open connection,
  the new one last among them.
\<close>

theorem admit_sends_to_all_open:
  "trace (on_connection ws st) = trace st @ map (\<lambda>c. Sent c (Roster (userState st))) (open_clients st)
   \<and> (\<exists>st'. step parse (Connect ws) st = Returned st' \<and>
        trace st' = trace st @ map (\<lambda>c. Sent c (Roster (userState st))) (open_clients st @ [ws]))"
  by (simp add: on_connection_def step_def open_clients_def)

theorem admit_sends_to_all_open_witness:
  "trace (state_of (step (\<lambda>s. None) (Connect 2) ((boot [])\<lparr>clients := [(1, OPEN), (3, CLOSING)]\<rparr>))) =
     [Sent 1 (Roster []), Sent 2 (Roster [])]"
  using admit_sends_to_all_open [of 2 "(boot [])\<lparr>clients := [(1, OPEN), (3, CLOSING)]\<rparr>" "\<lambda>s. None"]
  by (auto simp add: boot_def open_clients_def)

subsection \<open>Exit, close, and what follows an exit\<close>







subsection \<open>History replay on join\<close>




subsection \<open>At most one pending eviction per identity\<close>

lemma timers_ok_cong:
  "timeouts st' = timeouts st \<Longrightarrow> nextTimer st' = nextTimer st \<Longrightarrow>
   deletionTimers st' = deletionTimers st \<Longrightarrow> timers_ok st' = timers_ok st"
  by (simp add: timers_ok_def)

lemma timers_ok_boot: "timers_ok (boot roster)"
  by (simp add: timers_ok_def boot_def)

lemma timers_ok_emit [simp]: "timers_ok (emit e st) = timers_ok st"
  by (rule timers_ok_cong) simp_all

lemma timers_ok_send_all [simp]: "timers_ok (send_all p st) = timers_ok st"
  by (rule timers_ok_cong) simp_all

lemma timers_ok_saveUserState [simp]: "timers_ok (saveUserState st) = timers_ok st"
  by (rule timers_ok_cong) simp_all

lemma timers_ok_broadcastUserState [simp]: "timers_ok (broadcastUserState st) = timers_ok st"
  by (rule timers_ok_cong) simp_all

lemma timers_ok_update [simp]:
  "timers_ok (st\<lparr>userState := a\<rparr>) = timers_ok st"
  "timers_ok (st\<lparr>messages := b\<rparr>) = timers_ok st"
  "timers_ok (st\<lparr>clients := c\<rparr>) = timers_ok st"
  "timers_ok (st\<lparr>currentUserId := f\<rparr>) = timers_ok st"
  "timers_ok (st\<lparr>trace := g\<rparr>) = timers_ok st"
  by (simp_all add: timers_ok_def)

lemma distinct_map_filter_fst: "distinct (map fst xs) \<Longrightarrow> distinct (map fst (filter P xs))"
  by (induction xs) auto

lemma timers_ok_scheduleDeletion:
  assumes "timers_ok st"
  shows "timers_ok (scheduleDeletion u st)"
proof -
  let ?old = "case deletionTimers st (key_of u) of
        Some h \<Rightarrow> filter (\<lambda>hu. fst hu \<noteq> h) (timeouts st)
      | None \<Rightarrow> timeouts st"
  have sub: "set ?old \<subseteq> set (timeouts st)" by (auto split: option.splits)
  have d: "distinct (map fst ?old)"
    using assms by (auto simp add: timers_ok_def distinct_map_filter_fst split: option.splits)
  have nokey: "key_of (snd hu) \<noteq> key_of u" if "hu \<in> set ?old" for hu
    using that assms by (auto simp add: timers_ok_def split: option.splits)
  have lt: "fst hu < nextTimer st" if "hu \<in> set ?old" for hu
    using that sub assms by (auto simp add: timers_ok_def)
  have m: "deletionTimers st (key_of (snd hu)) = Some (fst hu)" if "hu \<in> set ?old" for hu
    using that sub assms by (auto simp add: timers_ok_def)
  have fresh: "nextTimer st \<notin> fst ` set ?old" using lt by fastforce
  show ?thesis
    unfolding timers_ok_def scheduleDeletion_timeouts
    using d fresh nokey lt m by (auto simp add: less_Suc_eq)
qed

lemma timers_ok_cancelDeletion:
  assumes "timers_ok st"
  shows "timers_ok (cancelDeletion u st)"
  using assms
  by (auto simp add: timers_ok_def cancelDeletion_timers distinct_map_filter_fst split: option.splits)

lemma deletion_callback_timers [simp]:
  "timeouts (deletion_callback u st) = timeouts st"
  "nextTimer (deletion_callback u st) = nextTimer st"
  "deletionTimers (deletion_callback u st) = (deletionTimers st)(key_of u := None)"
  "messages (deletion_callback u st) = messages st"
  "clients (deletion_callback u st) = clients st"
  "currentUserId (deletion_callback u st) = currentUserId st"
  by (simp_all add: deletion_callback_def Let_def split: option.splits)

lemma timers_ok_fire:
  assumes "timers_ok st"
  shows "timers_ok (fire h st)"
proof (cases "map_of (timeouts st) h")
  case None
  then show ?thesis using assms by (simp add: fire_def)
next
  case (Some u)
  then have "(h, u) \<in> set (timeouts st)" by (rule map_of_SomeD)
  then have k: "deletionTimers st (key_of u) = Some h"
    using assms by (auto simp add: timers_ok_def)
  show ?thesis
    using assms k Some
    by (auto simp add: fire_def timers_ok_def distinct_map_filter_fst)
qed

lemma timers_ok_announce: "timers_ok st \<Longrightarrow> timers_ok (announce r ws st)"
  by (simp add: announce_def Let_def timers_ok_cancelDeletion)

lemma timers_ok_exit_branch: "timers_ok st \<Longrightarrow> timers_ok (exit_branch ws st)"
  by (simp add: exit_branch_def Let_def timers_ok_scheduleDeletion)

lemma timers_ok_send_branch: "timers_ok st \<Longrightarrow> timers_ok (send_branch r msg b st)"
  by (simp add: send_branch_def)

lemma timers_ok_join_branch: "timers_ok st \<Longrightarrow> timers_ok (join_branch r ws st)"
  by (simp add: join_branch_def Let_def timers_ok_cancelDeletion)

lemma timers_ok_received: "timers_ok st \<Longrightarrow> timers_ok (state_of (received r msg b ws st))"
  by (simp add: received_def Let_def timers_ok_announce timers_ok_exit_branch
      timers_ok_send_branch timers_ok_join_branch)

lemma timers_ok_on_message: "timers_ok st \<Longrightarrow> timers_ok (state_of (on_message parse msg b ws st))"
  by (simp add: on_message_def timers_ok_received split: option.splits)

lemma timers_ok_on_close: "timers_ok st \<Longrightarrow> timers_ok (on_close ws st)"
  by (simp add: on_close_def timers_ok_scheduleDeletion)

lemma timers_ok_on_connection: "timers_ok st \<Longrightarrow> timers_ok (on_connection ws st)"
  by (simp add: on_connection_def)

lemma timers_ok_new_user: "timers_ok st \<Longrightarrow> timers_ok (state_of (new_user body uuid st))"
  by (simp add: new_user_def Let_def)

lemma timers_ok_step: "timers_ok st \<Longrightarrow> timers_ok (state_of (step parse ev st))"
  by (cases ev)
    (simp_all add: step_def timers_ok_on_connection timers_ok_on_message timers_ok_on_close
      timers_ok_fire timers_ok_new_user)

lemma timers_ok_run: "timers_ok st \<Longrightarrow> timers_ok (state_of (run parse evs st))"
proof (induction evs arbitrary: st)
  case Nil
  then show ?case by simp
next
  case (Cons ev evs)
  show ?case
  proof (cases "step parse ev st")
    case (Returned st')
    with timers_ok_step [OF Cons.prems, of parse ev] have "timers_ok st'" by simp
    with Cons.IH Returned show ?thesis by simp
  next
    case (Threw x st')
    with timers_ok_step [OF Cons.prems, of parse ev] show ?thesis by simp
  qed
qed

lemma pending_at_most_one:
  assumes "timers_ok st"
  shows "length (pending k st) \<le> 1"
proof -
  have m: "deletionTimers st k = Some (fst hu)" if "hu \<in> set (pending k st)" for hu
    using that assms by (auto simp add: pending_def timers_ok_def)
  have same: "fst a = fst b" if "a \<in> set (pending k st)" "b \<in> set (pending k st)" for a b
    using m [OF that(1)] m [OF that(2)] by simp
  have d: "distinct (map fst (pending k st))"
    using assms by (simp add: pending_def timers_ok_def distinct_map_filter_fst)
  show ?thesis
  proof (cases "pending k st")
    case Nil
    then show ?thesis by simp
  next
    case (Cons a xs)
    show ?thesis
    proof (cases xs)
      case Nil
      with Cons show ?thesis by simp
    next
      case (Cons b ys)
      with \<open>pending k st = a # xs\<close> same [of a b] d show ?thesis by auto
    qed
  qed
qed

lemma pending_scheduleDeletion:
  assumes "timers_ok st"
  shows "pending (key_of u) (scheduleDeletion u st) = [(nextTimer st, u)]"
proof -
  let ?old = "case deletionTimers st (key_of u) of
        Some h \<Rightarrow> filter (\<lambda>hu. fst hu \<noteq> h) (timeouts st)
      | None \<Rightarrow> timeouts st"
  have "key_of (snd hu) \<noteq> key_of u" if "hu \<in> set ?old" for hu
    using that assms by (auto simp add: timers_ok_def split: option.splits)
  then have "filter (\<lambda>hu. key_of (snd hu) = key_of u) ?old = []"
    by (simp add: filter_empty_conv)
  then show ?thesis
    by (simp add: pending_def scheduleDeletion_timeouts)
qed

lemma pending_clearTimeout:
  "pending k (clearTimeout h st) = filter (\<lambda>hu. fst hu \<noteq> h) (pending k st)"
  by (simp add: pending_def conj_commute)

lemma pending_deletion_callback [simp]: "pending k (deletion_callback u st) = pending k st"
  by (simp add: pending_def)

lemma pending_fire:
  "pending k (fire h st) = filter (\<lambda>hu. fst hu \<noteq> h) (pending k st)"
proof (cases "map_of (timeouts st) h")
  case None
  then have "h \<notin> fst ` set (timeouts st)" by (simp add: map_of_eq_None_iff)
  then have "\<forall>hu \<in> set (pending k st). fst hu \<noteq> h"
    by (force simp add: pending_def)
  then have "filter (\<lambda>hu. fst hu \<noteq> h) (pending k st) = pending k st"
    by (rule filter_True)
  with None show ?thesis by (simp add: fire_def)
next
  case (Some u)
  then show ?thesis
    by (simp add: fire_def pending_clearTimeout)
qed

subsection \<open>Unique names\<close>

lemma distinct_map_splice1: "distinct (map f xs) \<Longrightarrow> distinct (map f (splice1 idx xs))"
proof (induction xs arbitrary: idx)
  case Nil
  then show ?case by (simp add: splice1_def)
next
  case (Cons x xs)
  show ?case
  proof (cases idx)
    case 0
    with Cons.prems show ?thesis by (simp add: splice1_def)
  next
    case (Suc n)
    have "set (splice1 n xs) \<subseteq> set xs"
      unfolding splice1_def using set_take_subset [of n xs] set_drop_subset [of "Suc n" xs] by auto
    then have "f x \<notin> f ` set (splice1 n xs)" using Cons.prems by auto
    moreover have "distinct (map f (splice1 n xs))" using Cons by simp
    moreover have "splice1 (Suc n) (x # xs) = x # splice1 n xs" by (simp add: splice1_def)
    ultimately show ?thesis using Suc by simp
  qed
qed

lemma names_ok_snoc:
  assumes "names_ok roster" and "find (\<lambda>x. strict_eq (uname x) name) roster = None"
  shows "names_ok (roster @ [\<lparr>uid = i, uname = name\<rparr>])"
proof -
  have "\<forall>x \<in> set roster. key_of (uname x) \<noteq> key_of name"
    using assms(2) by (simp add: find_None_iff strict_eq_def)
  then have "key_of name \<notin> (\<lambda>x. key_of (uname x)) ` set roster"
  proof (intro notI)
    assume a: "\<forall>x \<in> set roster. key_of (uname x) \<noteq> key_of name"
      and b: "key_of name \<in> (\<lambda>x. key_of (uname x)) ` set roster"
    from b obtain x where "x \<in> set roster" "key_of name = key_of (uname x)" by (rule imageE)
    with a show False by (metis bspec)
  qed
  with assms(1) show ?thesis by (simp add: names_ok_def)
qed

lemma userState_new_user:
  "userState (state_of (new_user body uuid st)) =
     (if \<not> nullish body \<and> find (\<lambda>x. strict_eq (uname x) (field body ''name'')) (userState st) = None
      then userState st @ [\<lparr>uid = JStr uuid, uname = field body ''name''\<rparr>]
      else userState st)"
  by (simp add: new_user_def Let_def)

lemma names_ok_new_user:
  "names_ok (userState st) \<Longrightarrow> names_ok (userState (state_of (new_user body uuid st)))"
  by (simp add: userState_new_user names_ok_snoc)

lemma deletion_callback_userState:
  "userState (deletion_callback u st) =
     (case findIndex (\<lambda>x. strict_eq (uid x) u) (userState st) of
        Some idx \<Rightarrow> splice1 idx (userState st)
      | None \<Rightarrow> userState st)"
  by (simp add: deletion_callback_def Let_def split: option.splits)

lemma names_ok_fire: "names_ok (userState st) \<Longrightarrow> names_ok (userState (fire h st))"
  by (auto simp add: fire_def deletion_callback_userState names_ok_def distinct_map_splice1
      split: option.splits)

lemma userState_received [simp]: "userState (state_of (received r msg b ws st)) = userState st"
  by (simp add: received_def Let_def exit_branch_def)

lemma userState_on_message [simp]:
  "userState (state_of (on_message parse msg b ws st)) = userState st"
  by (simp add: on_message_def split: option.splits)

lemma userState_on_close [simp]: "userState (on_close ws st) = userState st"
  by (simp add: on_close_def)

lemma userState_on_connection [simp]: "userState (on_connection ws st) = userState st"
  by (simp add: on_connection_def)

lemma names_ok_step:
  "names_ok (userState st) \<Longrightarrow> names_ok (userState (state_of (step parse ev st)))"
  by (cases ev) (simp_all add: step_def names_ok_fire names_ok_new_user)

lemma names_ok_run:
  "names_ok (userState st) \<Longrightarrow> names_ok (userState (state_of (run parse evs st)))"
proof (induction evs arbitrary: st)
  case Nil
  then show ?case by simp
next
  case (Cons ev evs)
  show ?case
  proof (cases "step parse ev st")
    case (Returned st')
    with names_ok_step [OF Cons.prems, of parse ev] have "names_ok (userState st')" by simp
    with Cons.IH Returned show ?thesis by simp
  next
    case (Threw x st')
    with names_ok_step [OF Cons.prems, of parse ev] show ?thesis by simp
  qed
qed

lemma new_user_conflict:
  assumes "\<not> nullish body"
    and "find (\<lambda>x. strict_eq (uname x) (field body ''name'')) (userState st) \<noteq> None"
  shows "new_user body uuid st =
     (if keys_length body = 0
      then Threw HeadersSent
             (emit (Logged Error ''User with this name already exist'')
               (emit (Replied 400 (ReplyError ''This name is already taken!'')) st))
      else Returned
             (emit (Replied 409 (ReplyError ''This name is already taken!''))
               (emit (Logged Error ''User with this name already exist'') st)))"
proof -
  from assms(2) obtain y
    where "find (\<lambda>x. strict_eq (uname x) (field body ''name'')) (userState st) = Some y"
    by blast
  with assms(1) show ?thesis by (simp add: new_user_def respond_def Let_def)
qed

lemma new_user_fresh:
  assumes "\<not> nullish body"
    and "find (\<lambda>x. strict_eq (uname x) (field body ''name'')) (userState st) = None"
  shows "userState (state_of (new_user body uuid st)) =
       userState st @ [\<lparr>uid = JStr uuid, uname = field body ''name''\<rparr>]"
    and "keys_length body \<noteq> 0 \<Longrightarrow>
       \<exists>st'. new_user body uuid st = Returned st' \<and>
          trace st' = trace st @
            [Wrote (userState st @ [\<lparr>uid = JStr uuid, uname = field body ''name''\<rparr>])] @
            map (\<lambda>c. Sent c (Roster (userState st @ [\<lparr>uid = JStr uuid, uname = field body ''name''\<rparr>])))
              (open_clients st) @
            [Logged Info ''Broadcasted updated userState to all clients'',
             Logged Info ''New user created'',
             Replied 200 (ReplyOk \<lparr>uid = JStr uuid, uname = field body ''name''\<rparr>)]"
  using assms by (simp_all add: new_user_def respond_def Let_def)

text \<open>
  C8: started with a roster whose names are pairwise different (the empty roster, for
  one), the server never holds two identities with the same name, whatever events
  arrive. A registration whose name is in the roster leaves the roster as it is and is
  answered with the conflict reply 409 (when the body is empty and an identity without
  a name exists, the caller has got the 400 before and the 409 is not sent: the handler
  ends in an exception, the roster unchanged all the same). A registration whose name
  is not in the roster appends the identity. Names are compared with \<^verbatim>\<open>===\<close>, so
  strings match exactly, case included.
\<close>

theorem names_unique:
  assumes "names_ok roster"
  shows "names_ok (userState (state_of (run parse evs (boot roster)))) \<and>
    (\<not> nullish body \<and> find (\<lambda>x. strict_eq (uname x) (field body ''name'')) (userState st) \<noteq> None \<longrightarrow>
       userState (state_of (new_user body uuid st)) = userState st \<and>
       new_user body uuid st =
         (if keys_length body = 0
          then Threw HeadersSent
                 (emit (Logged Error ''User with this name already exist'')
                   (emit (Replied 400 (ReplyError ''This name is already taken!'')) st))
          else Returned
                 (emit (Replied 409 (ReplyError ''This name is already taken!''))
                   (emit (Logged Error ''User with this name already exist'') st)))) \<and>
    (\<not> nullish body \<and> find (\<lambda>x. strict_eq (uname x) (field body ''name'')) (userState st) = None \<longrightarrow>
       userState (state_of (new_user body uuid st)) =
         userState st @ [\<lparr>uid = JStr uuid, uname = field body ''name''\<rparr>] \<and>
       (keys_length body \<noteq> 0 \<longrightarrow>
          (\<exists>st'. new_user body uuid st = Returned st' \<and>
             trace st' = trace st @
               [Wrote (userState st @ [\<lparr>uid = JStr uuid, uname = field body ''name''\<rparr>])] @
               map (\<lambda>c. Sent c (Roster (userState st @ [\<lparr>uid = JStr uuid, uname = field body ''name''\<rparr>])))
                 (open_clients st) @
               [Logged Info ''Broadcasted updated userState to all clients'',
                Logged Info ''New user created'',
                Replied 200 (ReplyOk \<lparr>uid = JStr uuid, uname = field body ''name''\<rparr>)])))"
proof (intro conjI impI)
  have "names_ok (userState (boot roster))" using assms by (simp add: boot_def)
  then show "names_ok (userState (state_of (run parse evs (boot roster))))"
    by (rule names_ok_run)
next
  assume a: "\<not> nullish body \<and> find (\<lambda>x. strict_eq (uname x) (field body ''name'')) (userState st) \<noteq> None"
  then show "userState (state_of (new_user body uuid st)) = userState st"
    by (simp add: userState_new_user)
  from a show "new_user body uuid st =
         (if keys_length body = 0
          then Threw HeadersSent
                 (emit (Logged Error ''User with this name already exist'')
                   (emit (Replied 400 (ReplyError ''This name is already taken!'')) st))
          else Returned
                 (emit (Replied 409 (ReplyError ''This name is already taken!''))
                   (emit (Logged Error ''User with this name already exist'') st)))"
    using new_user_conflict by blast
next
  assume a: "\<not> nullish body \<and> find (\<lambda>x. strict_eq (uname x) (field body ''name'')) (userState st) = None"
  then show "userState (state_of (new_user body uuid st)) =
         userState st @ [\<lparr>uid = JStr uuid, uname = field body ''name''\<rparr>]"
    using new_user_fresh(1) by blast
  assume k: "keys_length body \<noteq> 0"
  from a k show "\<exists>st'. new_user body uuid st = Returned st' \<and>
             trace st' = trace st @
               [Wrote (userState st @ [\<lparr>uid = JStr uuid, uname = field body ''name''\<rparr>])] @
               map (\<lambda>c. Sent c (Roster (userState st @ [\<lparr>uid = JStr uuid, uname = field body ''name''\<rparr>])))
                 (open_clients st) @
               [Logged Info ''Broadcasted updated userState to all clients'',
                Logged Info ''New user created'',
                Replied 200 (ReplyOk \<lparr>uid = JStr uuid, uname = field body ''name''\<rparr>)]"
    using new_user_fresh(2) by blast
qed

theorem names_unique_witness:
  "names_ok (userState (state_of (run (\<lambda>s. None)
      [NewUser (JObj 0 [(''name'', JStr ''alice'')]) ''A'',
       NewUser (JObj 1 [(''name'', JStr ''alice'')]) ''B''] (boot [])))) \<and>
   new_user (JObj 1 [(''name'', JStr ''alice'')]) ''B''
      (boot [\<lparr>uid = JStr ''A'', uname = JStr ''alice''\<rparr>]) =
     Returned
       (emit (Replied 409 (ReplyError ''This name is already taken!''))
         (emit (Logged Error ''User with this name already exist'')
           (boot [\<lparr>uid = JStr ''A'', uname = JStr ''alice''\<rparr>]))) \<and>
   userState (state_of (new_user (JObj 0 [(''name'', JStr ''alice'')]) ''A'' (boot []))) =
     [\<lparr>uid = JStr ''A'', uname = JStr ''alice''\<rparr>]"
proof -
  have n: "names_ok []" by (simp add: names_ok_def)
  let ?b = "JObj 1 [(''name'', JStr ''alice'')]"
  let ?S = "boot [\<lparr>uid = JStr ''A'', uname = JStr ''alice''\<rparr>]"
  have u: "userState ?S = [\<lparr>uid = JStr ''A'', uname = JStr ''alice''\<rparr>]"
    by (simp add: boot_def)
  have f: "\<not> nullish ?b \<and> find (\<lambda>x. strict_eq (uname x) (field ?b ''name'')) (userState ?S) \<noteq> None"
    unfolding u by (simp add: strict_eq_def)
  have k: "keys_length ?b \<noteq> 0" by simp
  note t = names_unique [OF n, where body = ?b and st = ?S and uuid = "''B''"
      and parse = "\<lambda>s. None"
      and evs = "[NewUser (JObj 0 [(''name'', JStr ''alice'')]) ''A'',
                  NewUser (JObj 1 [(''name'', JStr ''alice'')]) ''B'']"]
  from t have a: "names_ok (userState (state_of (run (\<lambda>s. None)
      [NewUser (JObj 0 [(''name'', JStr ''alice'')]) ''A'',
       NewUser (JObj 1 [(''name'', JStr ''alice'')]) ''B''] (boot []))))"
    by (rule conjunct1)
  from t f k have b: "new_user ?b ''B'' ?S =
     Returned
       (emit (Replied 409 (ReplyError ''This name is already taken!''))
         (emit (Logged Error ''User with this name already exist'') ?S))"
    by simp
  let ?c = "JObj 0 [(''name'', JStr ''alice'')]"
  have g: "\<not> nullish ?c \<and> find (\<lambda>x. strict_eq (uname x) (field ?c ''name'')) (userState (boot [])) = None"
    by (simp add: boot_def)
  note t2 = names_unique [OF n, where body = ?c and st = "boot []" and uuid = "''A''"
      and parse = "\<lambda>s. None" and evs = "[]"]
  from t2 g have c: "userState (state_of (new_user ?c ''A'' (boot []))) =
     [\<lparr>uid = JStr ''A'', uname = JStr ''alice''\<rparr>]"
    by (simp add: boot_def)
  from a b c show ?thesis by blast
qed

subsection \<open>The history is the sequence of the send frames\<close>

lemma messages_exit_branch [simp]: "messages (exit_branch ws st) = messages st"
  by (simp add: exit_branch_def Let_def)



lemma messages_on_close [simp]: "messages (on_close ws st) = messages st"
  by (simp add: on_close_def)

lemma messages_on_connection [simp]: "messages (on_connection ws st) = messages st"
  by (simp add: on_connection_def)

lemma messages_fire [simp]: "messages (fire h st) = messages st"
  by (simp add: fire_def split: option.splits)







subsection \<open>Eviction when the timeout fires\<close>

lemma timers_grow_refl: "timers_grow st st"
  by (simp add: timers_grow_def)

lemma timers_grow_trans: "timers_grow a b \<Longrightarrow> timers_grow b c \<Longrightarrow> timers_grow a c"
  unfolding timers_grow_def by (metis (no_types, lifting) le_trans)

lemma timers_grow_cong:
  "timeouts st'' = timeouts st' \<Longrightarrow> nextTimer st'' = nextTimer st' \<Longrightarrow>
   timers_grow st st'' = timers_grow st st'"
  by (simp add: timers_grow_def)

lemma timers_grow_emit [simp]: "timers_grow st (emit e x) = timers_grow st x"
  by (rule timers_grow_cong) simp_all

lemma timers_grow_send_all [simp]: "timers_grow st (send_all p x) = timers_grow st x"
  by (rule timers_grow_cong) simp_all

lemma timers_grow_saveUserState [simp]: "timers_grow st (saveUserState x) = timers_grow st x"
  by (rule timers_grow_cong) simp_all

lemma timers_grow_broadcastUserState [simp]:
  "timers_grow st (broadcastUserState x) = timers_grow st x"
  by (rule timers_grow_cong) simp_all

lemma timers_grow_update [simp]:
  "timers_grow st (x\<lparr>userState := a\<rparr>) = timers_grow st x"
  "timers_grow st (x\<lparr>messages := b\<rparr>) = timers_grow st x"
  "timers_grow st (x\<lparr>clients := c\<rparr>) = timers_grow st x"
  "timers_grow st (x\<lparr>currentUserId := f\<rparr>) = timers_grow st x"
  "timers_grow st (x\<lparr>trace := g\<rparr>) = timers_grow st x"
  "timers_grow st (x\<lparr>deletionTimers := d\<rparr>) = timers_grow st x"
  by (simp_all add: timers_grow_def)

lemma timers_grow_scheduleDeletion:
  "timers_grow st x \<Longrightarrow> timers_grow st (scheduleDeletion u x)"
proof (rule timers_grow_trans)
  show "timers_grow x (scheduleDeletion u x)"
    by (auto simp add: timers_grow_def scheduleDeletion_timeouts split: option.splits)
qed

lemma timers_grow_cancelDeletion:
  "timers_grow st x \<Longrightarrow> timers_grow st (cancelDeletion u x)"
proof (rule timers_grow_trans)
  show "timers_grow x (cancelDeletion u x)"
    by (auto simp add: timers_grow_def cancelDeletion_timers split: option.splits)
qed

lemma timers_grow_fire: "timers_grow st x \<Longrightarrow> timers_grow st (fire h x)"
proof (rule timers_grow_trans)
  show "timers_grow x (fire h x)"
    by (auto simp add: timers_grow_def fire_def split: option.splits)
qed

lemma timers_grow_announce: "timers_grow st x \<Longrightarrow> timers_grow st (announce r ws x)"
  by (simp add: announce_def Let_def timers_grow_cancelDeletion)

lemma timers_grow_exit_branch: "timers_grow st x \<Longrightarrow> timers_grow st (exit_branch ws x)"
  by (simp add: exit_branch_def Let_def timers_grow_scheduleDeletion)

lemma timers_grow_send_branch: "timers_grow st x \<Longrightarrow> timers_grow st (send_branch r msg b x)"
  by (simp add: send_branch_def)

lemma timers_grow_join_branch: "timers_grow st x \<Longrightarrow> timers_grow st (join_branch r ws x)"
  by (simp add: join_branch_def Let_def timers_grow_cancelDeletion)

lemma timers_grow_received:
  "timers_grow st x \<Longrightarrow> timers_grow st (state_of (received r msg b ws x))"
  by (simp add: received_def Let_def timers_grow_announce timers_grow_exit_branch
      timers_grow_send_branch timers_grow_join_branch)

lemma timers_grow_on_message:
  "timers_grow st x \<Longrightarrow> timers_grow st (state_of (on_message parse msg b ws x))"
  by (simp add: on_message_def timers_grow_received split: option.splits)

lemma timers_grow_on_close: "timers_grow st x \<Longrightarrow> timers_grow st (on_close ws x)"
  by (simp add: on_close_def timers_grow_scheduleDeletion)

lemma timers_grow_on_connection: "timers_grow st x \<Longrightarrow> timers_grow st (on_connection ws x)"
  by (simp add: on_connection_def)

lemma timers_grow_new_user:
  "timers_grow st x \<Longrightarrow> timers_grow st (state_of (new_user body uuid x))"
  by (simp add: new_user_def Let_def)

lemma timers_grow_step: "timers_grow st (state_of (step parse ev st))"
  by (cases ev)
    (simp_all add: step_def timers_grow_on_connection timers_grow_on_message
      timers_grow_on_close timers_grow_fire timers_grow_new_user timers_grow_refl)

lemma armed_before:
  assumes "timers_grow st st'" and "h < nextTimer st" and "(h, u) \<in> set (timeouts st')"
  shows "(h, u) \<in> set (timeouts st)"
  using assms by (fastforce simp add: timers_grow_def)

lemma findIndex_None_iff: "findIndex P xs = None \<longleftrightarrow> \<not> list_ex P xs"
  by (induction xs) simp_all

lemma findIndex_Some:
  "findIndex P xs = Some idx \<Longrightarrow> idx < length xs \<and> P (xs ! idx)"
proof (induction xs arbitrary: idx)
  case Nil
  then show ?case by simp
next
  case (Cons x xs)
  show ?case
  proof (cases "P x")
    case True
    with Cons.prems show ?thesis by simp
  next
    case False
    with Cons.prems obtain n where "findIndex P xs = Some n" "idx = Suc n" by auto
    with Cons.IH [of n] show ?thesis by simp
  qed
qed

lemma splice1_keeps:
  assumes "x \<in> set xs" and "x \<noteq> xs ! idx"
  shows "x \<in> set (splice1 idx xs)"
proof (cases "idx < length xs")
  case True
  then have "xs = take idx xs @ (xs ! idx) # drop (Suc idx) xs"
    by (rule id_take_nth_drop)
  then have "set xs = set (take idx xs @ (xs ! idx) # drop (Suc idx) xs)"
    by simp
  then have "set xs = set (take idx xs) \<union> {xs ! idx} \<union> set (drop (Suc idx) xs)"
    by (simp only: set_append set_simps) auto
  with assms show ?thesis by (auto simp add: splice1_def)
next
  case False
  then show ?thesis using assms(1) by (simp add: splice1_def)
qed

lemma has_identity_append: "has_identity u xs \<Longrightarrow> has_identity u (xs @ ys)"
  by (auto simp add: has_identity_def list_ex_iff)

lemma has_identity_new_user:
  "has_identity u (userState st) \<Longrightarrow> has_identity u (userState (state_of (new_user body uuid st)))"
  by (simp add: userState_new_user has_identity_append)

lemma has_identity_fire_other:
  assumes ok: "timers_ok st" and a: "(h, u) \<in> set (timeouts st)" and ne: "h' \<noteq> h"
    and m: "has_identity u (userState st)"
  shows "has_identity u (userState (fire h' st))"
proof (cases "map_of (timeouts st) h'")
  case None
  then show ?thesis using m by (simp add: fire_def)
next
  case (Some u')
  then have "(h', u') \<in> set (timeouts st)" by (rule map_of_SomeD)
  then have "deletionTimers st (key_of u') = Some h'"
    using ok by (force simp add: timers_ok_def)
  moreover have "deletionTimers st (key_of u) = Some h"
    using ok a by (force simp add: timers_ok_def)
  ultimately have k: "key_of u' \<noteq> key_of u"
    using ne by auto
  show ?thesis
  proof (cases "findIndex (\<lambda>x. strict_eq (uid x) u') (userState st)")
    case None
    with Some m show ?thesis by (simp add: fire_def deletion_callback_userState)
  next
    case (Some idx)
    from findIndex_Some [OF Some] have q: "key_of (uid (userState st ! idx)) = key_of u'"
      by (simp add: strict_eq_def)
    from m obtain x where x: "x \<in> set (userState st)" "key_of (uid x) = key_of u"
      by (auto simp add: has_identity_def list_ex_iff strict_eq_def)
    with q k have "x \<noteq> userState st ! idx" by auto
    with x(1) have "x \<in> set (splice1 idx (userState st))" by (rule splice1_keeps)
    with x(2) have "has_identity u (splice1 idx (userState st))"
      by (auto simp add: has_identity_def list_ex_iff strict_eq_def)
    with Some \<open>map_of (timeouts st) h' = Some u'\<close> show ?thesis
      by (simp add: fire_def deletion_callback_userState)
  qed
qed

lemma fire_disarms:
  "(h, u) \<notin> set (timeouts (fire h st))"
  by (auto simp add: fire_def split: option.splits dest: map_of_SomeD
      simp add: map_of_eq_None_iff image_iff)

lemma step_keeps_identity:
  assumes ok: "timers_ok st" and a: "(h, u) \<in> set (timeouts st)"
    and a': "(h, u) \<in> set (timeouts (state_of (step parse ev st)))"
    and m: "has_identity u (userState st)"
  shows "has_identity u (userState (state_of (step parse ev st)))"
proof (cases ev)
  case (Connect ws)
  with m show ?thesis by (simp add: step_def)
next
  case (Message ws msg b)
  with m show ?thesis by (simp add: step_def)
next
  case (Close ws)
  with m show ?thesis by (simp add: step_def)
next
  case (Timeout h')
  with a' have "h' \<noteq> h" using fire_disarms [of h u st] by (auto simp add: step_def)
  from has_identity_fire_other [OF ok a this m] Timeout show ?thesis by (simp add: step_def)
next
  case (NewUser body uuid)
  with m show ?thesis by (simp add: step_def has_identity_new_user)
qed

lemma run_keeps_identity:
  assumes "timers_ok st" and "h < nextTimer st"
    and "(h, u) \<in> set (timeouts st) \<longrightarrow> has_identity u (userState st)"
    and "(h, u) \<in> set (timeouts (state_of (run parse evs st)))"
  shows "has_identity u (userState (state_of (run parse evs st)))"
  using assms
proof (induction evs arbitrary: st)
  case Nil
  then show ?case by simp
next
  case (Cons ev evs)
  let ?s = "state_of (step parse ev st)"
  have ok: "timers_ok ?s" using Cons.prems(1) by (rule timers_ok_step)
  have g: "timers_grow st ?s" by (rule timers_grow_step)
  then have lt: "h < nextTimer ?s" using Cons.prems(2) by (simp add: timers_grow_def)
  have j: "(h, u) \<in> set (timeouts ?s) \<longrightarrow> has_identity u (userState ?s)"
  proof
    assume a': "(h, u) \<in> set (timeouts ?s)"
    from armed_before [OF g Cons.prems(2) a'] have a: "(h, u) \<in> set (timeouts st)" .
    with Cons.prems(3) have "has_identity u (userState st)" by simp
    from step_keeps_identity [OF Cons.prems(1) a a' this] show "has_identity u (userState ?s)" .
  qed
  show ?case
  proof (cases "step parse ev st")
    case (Returned st1)
    then have e: "?s = st1" by simp
    from Cons.prems(4) Returned have "(h, u) \<in> set (timeouts (state_of (run parse evs st1)))"
      by simp
    from Cons.IH [OF ok [unfolded e] lt [unfolded e] j [unfolded e] this] Returned
    show ?thesis by simp
  next
    case (Threw x st1)
    then have e: "?s = st1" by simp
    from Cons.prems(4) Threw have "(h, u) \<in> set (timeouts st1)" by simp
    with j [unfolded e] Threw show ?thesis by simp
  qed
qed

lemma fire_evicts:
  assumes "map_of (timeouts st) h = Some u"
    and "findIndex (\<lambda>x. strict_eq (uid x) u) (userState st) = Some idx"
  shows "userState (fire h st) = splice1 idx (userState st)"
    and "trace (fire h st) =
      trace st @ [Wrote (splice1 idx (userState st))] @
      map (\<lambda>c. Sent c (Roster (splice1 idx (userState st)))) (open_clients st) @
      [Logged Info ''Broadcasted updated userState to all clients'',
       Logged Info ''User deleted after 1 minute timeout'']"
    and "deletionTimers (fire h st) = (deletionTimers st)(key_of u := None)"
    and "timeouts (fire h st) = filter (\<lambda>hu. fst hu \<noteq> h) (timeouts st)"
  using assms by (simp_all add: fire_def deletion_callback_def Let_def open_clients_def)

lemma pending_same_handle:
  assumes "timers_ok st" and "(h, u) \<in> set (timeouts st)" and "hu \<in> set (pending (key_of u) st)"
  shows "fst hu = h"
proof -
  have "deletionTimers st (key_of u) = Some h"
    using assms(1,2) by (force simp add: timers_ok_def)
  moreover have "deletionTimers st (key_of u) = Some (fst hu)"
    using assms(1,3) by (force simp add: timers_ok_def pending_def)
  ultimately show ?thesis by simp
qed

lemma timers_recorded_cong:
  "timeouts st' = timeouts st \<Longrightarrow> deletionTimers st' = deletionTimers st \<Longrightarrow>
   timers_recorded st' = timers_recorded st"
  by (simp add: timers_recorded_def)

lemma timers_recorded_boot: "timers_recorded (boot roster)"
  by (simp add: timers_recorded_def boot_def)

lemma timers_recorded_emit [simp]: "timers_recorded (emit e st) = timers_recorded st"
  by (rule timers_recorded_cong) simp_all

lemma timers_recorded_send_all [simp]: "timers_recorded (send_all p st) = timers_recorded st"
  by (rule timers_recorded_cong) simp_all

lemma timers_recorded_saveUserState [simp]:
  "timers_recorded (saveUserState st) = timers_recorded st"
  by (rule timers_recorded_cong) simp_all

lemma timers_recorded_broadcastUserState [simp]:
  "timers_recorded (broadcastUserState st) = timers_recorded st"
  by (rule timers_recorded_cong) simp_all

lemma timers_recorded_update [simp]:
  "timers_recorded (st\<lparr>userState := a\<rparr>) = timers_recorded st"
  "timers_recorded (st\<lparr>messages := b\<rparr>) = timers_recorded st"
  "timers_recorded (st\<lparr>clients := c\<rparr>) = timers_recorded st"
  "timers_recorded (st\<lparr>currentUserId := f\<rparr>) = timers_recorded st"
  "timers_recorded (st\<lparr>trace := g\<rparr>) = timers_recorded st"
  by (simp_all add: timers_recorded_def)

text \<open>Two identities never share a handle.\<close>

lemma handle_of_one_identity:
  assumes ok: "timers_ok st" and rec: "timers_recorded st"
    and a: "deletionTimers st k = Some h" and b: "deletionTimers st k' = Some h"
  shows "k = k'"
proof -
  from rec a obtain u where u: "(h, u) \<in> set (timeouts st)" "key_of u = k"
    unfolding timers_recorded_def by blast
  from rec b obtain u' where u': "(h, u') \<in> set (timeouts st)" "key_of u' = k'"
    unfolding timers_recorded_def by blast
  have "distinct (map fst (timeouts st))" using ok by (simp add: timers_ok_def)
  from eq_key_imp_eq_value [OF this u(1) u'(1)] u(2) u'(2) show ?thesis by simp
qed

lemma recorded_elsewhere:
  assumes ok: "timers_ok st" and rec: "timers_recorded st"
    and a: "deletionTimers st k = Some h" and ne: "k \<noteq> key_of v"
  shows "\<exists>u. (h, u) \<in> set (case deletionTimers st (key_of v) of
                  Some h' \<Rightarrow> filter (\<lambda>hu. fst hu \<noteq> h') (timeouts st)
                | None \<Rightarrow> timeouts st) \<and> key_of u = k"
proof -
  from rec a obtain u where u: "(h, u) \<in> set (timeouts st)" "key_of u = k"
    unfolding timers_recorded_def by blast
  show ?thesis
  proof (cases "deletionTimers st (key_of v)")
    case None
    with u show ?thesis by auto
  next
    case (Some h')
    have "h' \<noteq> h"
    proof
      assume "h' = h"
      with Some have "deletionTimers st (key_of v) = Some h" by simp
      from handle_of_one_identity [OF ok rec a this] ne show False by simp
    qed
    with Some u show ?thesis by auto
  qed
qed

lemma timers_recorded_scheduleDeletion:
  assumes ok: "timers_ok st" and rec: "timers_recorded st"
  shows "timers_recorded (scheduleDeletion v st)"
  unfolding timers_recorded_def
proof (intro allI impI)
  fix k h
  assume a: "deletionTimers (scheduleDeletion v st) k = Some h"
  show "\<exists>u. (h, u) \<in> set (timeouts (scheduleDeletion v st)) \<and> key_of u = k"
  proof (cases "k = key_of v")
    case True
    with a have "h = nextTimer st" by simp
    with True show ?thesis by (auto simp add: scheduleDeletion_timeouts)
  next
    case False
    with a have "deletionTimers st k = Some h" by simp
    from recorded_elsewhere [OF ok rec this False] show ?thesis
      by (auto simp add: scheduleDeletion_timeouts)
  qed
qed

lemma timers_recorded_cancelDeletion:
  assumes ok: "timers_ok st" and rec: "timers_recorded st"
  shows "timers_recorded (cancelDeletion v st)"
  unfolding timers_recorded_def
proof (intro allI impI)
  fix k h
  assume a: "deletionTimers (cancelDeletion v st) k = Some h"
  then have ne: "k \<noteq> key_of v" and b: "deletionTimers st k = Some h"
    by (auto simp add: cancelDeletion_timers split: if_splits)
  from recorded_elsewhere [OF ok rec b ne]
  show "\<exists>u. (h, u) \<in> set (timeouts (cancelDeletion v st)) \<and> key_of u = k"
    by (simp add: cancelDeletion_timers)
qed

lemma timers_recorded_fire:
  assumes ok: "timers_ok st" and rec: "timers_recorded st"
  shows "timers_recorded (fire h st)"
proof (cases "map_of (timeouts st) h")
  case None
  then show ?thesis using rec by (simp add: fire_def)
next
  case (Some v)
  then have "(h, v) \<in> set (timeouts st)" by (rule map_of_SomeD)
  then have m: "deletionTimers st (key_of v) = Some h"
    using ok by (force simp add: timers_ok_def)
  show ?thesis
    unfolding timers_recorded_def
  proof (intro allI impI)
    fix k h'
    assume a: "deletionTimers (fire h st) k = Some h'"
    with Some have ne: "k \<noteq> key_of v" and b: "deletionTimers st k = Some h'"
      by (auto simp add: fire_def split: if_splits)
    from recorded_elsewhere [OF ok rec b ne] m Some
    show "\<exists>u. (h', u) \<in> set (timeouts (fire h st)) \<and> key_of u = k"
      by (simp add: fire_def)
  qed
qed

lemma timers_recorded_announce:
  "timers_ok st \<Longrightarrow> timers_recorded st \<Longrightarrow> timers_recorded (announce r ws st)"
  by (simp add: announce_def Let_def timers_recorded_cancelDeletion)

lemma timers_recorded_exit_branch:
  "timers_ok st \<Longrightarrow> timers_recorded st \<Longrightarrow> timers_recorded (exit_branch ws st)"
  by (simp add: exit_branch_def Let_def timers_recorded_scheduleDeletion)

lemma timers_recorded_join_branch:
  "timers_ok st \<Longrightarrow> timers_recorded st \<Longrightarrow> timers_recorded (join_branch r ws st)"
  by (simp add: join_branch_def Let_def timers_recorded_cancelDeletion)

lemma timers_recorded_send_branch [simp]:
  "timers_recorded (send_branch r msg b st) = timers_recorded st"
  by (simp add: send_branch_def)

lemma timers_recorded_received:
  assumes "timers_ok st" and "timers_recorded st"
  shows "timers_recorded (state_of (received r msg b ws st))"
proof -
  let ?a = "announce r ws (emit (Logged Info ''Message received'') st)"
  have ok: "timers_ok ?a" using assms(1) by (simp add: timers_ok_announce)
  have rec: "timers_recorded ?a" using assms by (simp add: timers_recorded_announce)
  let ?s = "if field r ''type'' = JStr ''send'' then send_branch r msg b ?a else ?a"
  have oks: "timers_ok ?s" using ok by (simp add: timers_ok_send_branch)
  have recs: "timers_recorded ?s" using rec by simp
  show ?thesis
    using assms ok rec oks recs
    by (simp add: received_def Let_def timers_recorded_exit_branch timers_recorded_join_branch)
qed

lemma timers_recorded_step:
  assumes "timers_ok st" and "timers_recorded st"
  shows "timers_recorded (state_of (step parse ev st))"
proof (cases ev)
  case (Connect ws)
  with assms show ?thesis by (simp add: step_def on_connection_def)
next
  case (Message ws msg b)
  with assms show ?thesis
    by (simp add: step_def on_message_def timers_recorded_received split: option.splits)
next
  case (Close ws)
  with assms show ?thesis
    by (simp add: step_def on_close_def timers_recorded_scheduleDeletion)
next
  case (Timeout h)
  with assms show ?thesis by (simp add: step_def timers_recorded_fire)
next
  case (NewUser body uuid)
  with assms show ?thesis by (simp add: step_def new_user_def Let_def)
qed

lemma timers_recorded_run:
  "timers_ok st \<Longrightarrow> timers_recorded st \<Longrightarrow> timers_recorded (state_of (run parse evs st))"
proof (induction evs arbitrary: st)
  case Nil
  then show ?case by simp
next
  case (Cons ev evs)
  let ?s = "state_of (step parse ev st)"
  have ok: "timers_ok ?s" using Cons.prems(1) by (rule timers_ok_step)
  have rec: "timers_recorded ?s" using Cons.prems by (rule timers_recorded_step)
  show ?case
  proof (cases "step parse ev st")
    case (Returned st1)
    with ok rec Cons.IH [of st1] show ?thesis by simp
  next
    case (Threw x st1)
    with rec show ?thesis by simp
  qed
qed

lemma other_identity_keeps_timer:
  assumes ok: "timers_ok st" and rec: "timers_recorded st"
    and a: "(h, u) \<in> set (timeouts st)" and ne: "key_of v \<noteq> key_of u"
  shows "(h, u) \<in> set (timeouts (cancelDeletion v st))"
    and "(h, u) \<in> set (timeouts (scheduleDeletion v st))"
proof -
  have m: "deletionTimers st (key_of u) = Some h"
    using ok a by (force simp add: timers_ok_def)
  from recorded_elsewhere [OF ok rec m ne [symmetric]] obtain w
    where w: "(h, w) \<in> set (case deletionTimers st (key_of v) of
                  Some h' \<Rightarrow> filter (\<lambda>hu. fst hu \<noteq> h') (timeouts st)
                | None \<Rightarrow> timeouts st)"
    by blast
  then have "(h, w) \<in> set (timeouts st)" by (auto split: option.splits)
  moreover have "distinct (map fst (timeouts st))" using ok by (simp add: timers_ok_def)
  ultimately have "w = u" using a by (metis eq_key_imp_eq_value)
  with w show "(h, u) \<in> set (timeouts (cancelDeletion v st))"
    and "(h, u) \<in> set (timeouts (scheduleDeletion v st))"
    by (simp_all add: cancelDeletion_timers scheduleDeletion_timeouts)
qed

lemma other_timer_keeps_timer:
  assumes "(h, u) \<in> set (timeouts st)" and "h' \<noteq> h"
  shows "(h, u) \<in> set (timeouts (fire h' st))"
  using assms by (simp add: fire_def split: option.splits)

subsection \<open>The two variants agree but for the history and the trace\<close>

lemma same_core_refl: "same_core a a"
  by (simp add: same_core_def)

lemma deletion_callback_js_core:
  "same_core (deletion_callback_js u st) (deletion_callback u st)"
  by (simp add: same_core_def deletion_callback_js_def deletion_callback_def Let_def
      split: option.splits)

lemma fire_js_core: "same_core (fire_js h st) (fire h st)"
  by (simp add: fire_js_def fire_def deletion_callback_js_core same_core_refl split: option.splits)

lemma new_user_js_core:
  "same_core (state_of (new_user_js body uuid st)) (state_of (new_user body uuid st))"
  by (simp add: same_core_def new_user_js_def new_user_def Let_def)

lemma received_js_core:
  "same_core (state_of (received_js r msg b ws st)) (state_of (received r msg b ws st))"
  by (simp add: same_core_def received_js_def received_def Let_def exit_branch_def
      send_branch_js_def send_branch_def join_branch_js_def join_branch_def
      cancelDeletion_timers)

lemma step_js_core:
  "same_core (state_of (step_js parse ev st)) (state_of (step parse ev st))"
  by (cases ev)
    (simp_all add: step_js_def step_def on_message_js_def on_message_def received_js_core
      fire_js_core new_user_js_core same_core_refl split: option.splits)

lemma timers_ok_core: "same_core a b \<Longrightarrow> timers_ok a = timers_ok b"
  by (simp add: same_core_def timers_ok_def)

lemma timers_recorded_core: "same_core a b \<Longrightarrow> timers_recorded a = timers_recorded b"
  by (simp add: same_core_def timers_recorded_def)

lemma timers_grow_core: "same_core a b \<Longrightarrow> timers_grow st a = timers_grow st b"
  by (simp add: same_core_def timers_grow_def)

lemma timers_ok_step_js: "timers_ok st \<Longrightarrow> timers_ok (state_of (step_js parse ev st))"
  using timers_ok_core [OF step_js_core] timers_ok_step by blast

lemma timers_recorded_step_js:
  "timers_ok st \<Longrightarrow> timers_recorded st \<Longrightarrow> timers_recorded (state_of (step_js parse ev st))"
  using timers_recorded_core [OF step_js_core] timers_recorded_step by blast

lemma timers_grow_step_js: "timers_grow st (state_of (step_js parse ev st))"
  using timers_grow_core [OF step_js_core] timers_grow_step by blast

lemma step_keeps_identity_js:
  assumes ok: "timers_ok st" and a: "(h, u) \<in> set (timeouts st)"
    and a': "(h, u) \<in> set (timeouts (state_of (step_js parse ev st)))"
    and m: "has_identity u (userState st)"
  shows "has_identity u (userState (state_of (step_js parse ev st)))"
proof -
  have c: "same_core (state_of (step_js parse ev st)) (state_of (step parse ev st))"
    by (rule step_js_core)
  then have "(h, u) \<in> set (timeouts (state_of (step parse ev st)))"
    using a' by (simp add: same_core_def)
  from step_keeps_identity [OF ok a this m] c show ?thesis by (simp add: same_core_def)
qed

lemma timers_ok_run_js: "timers_ok st \<Longrightarrow> timers_ok (state_of (run_js parse evs st))"
proof (induction evs arbitrary: st)
  case Nil
  then show ?case by simp
next
  case (Cons ev evs)
  have ok: "timers_ok (state_of (step_js parse ev st))"
    using Cons.prems by (rule timers_ok_step_js)
  show ?case
  proof (cases "step_js parse ev st")
    case (Returned st1)
    with ok Cons.IH [of st1] show ?thesis by simp
  next
    case (Threw x st1)
    with ok show ?thesis by simp
  qed
qed

lemma timers_recorded_run_js:
  "timers_ok st \<Longrightarrow> timers_recorded st \<Longrightarrow> timers_recorded (state_of (run_js parse evs st))"
proof (induction evs arbitrary: st)
  case Nil
  then show ?case by simp
next
  case (Cons ev evs)
  have ok: "timers_ok (state_of (step_js parse ev st))"
    using Cons.prems(1) by (rule timers_ok_step_js)
  have rec: "timers_recorded (state_of (step_js parse ev st))"
    using Cons.prems by (rule timers_recorded_step_js)
  show ?case
  proof (cases "step_js parse ev st")
    case (Returned st1)
    with ok rec Cons.IH [of st1] show ?thesis by simp
  next
    case (Threw x st1)
    with rec show ?thesis by simp
  qed
qed

lemma run_keeps_identity_js:
  assumes "timers_ok st" and "h < nextTimer st"
    and "(h, u) \<in> set (timeouts st) \<longrightarrow> has_identity u (userState st)"
    and "(h, u) \<in> set (timeouts (state_of (run_js parse evs st)))"
  shows "has_identity u (userState (state_of (run_js parse evs st)))"
  using assms
proof (induction evs arbitrary: st)
  case Nil
  then show ?case by simp
next
  case (Cons ev evs)
  let ?s = "state_of (step_js parse ev st)"
  have ok: "timers_ok ?s" using Cons.prems(1) by (rule timers_ok_step_js)
  have g: "timers_grow st ?s" by (rule timers_grow_step_js)
  then have lt: "h < nextTimer ?s" using Cons.prems(2) by (simp add: timers_grow_def)
  have j: "(h, u) \<in> set (timeouts ?s) \<longrightarrow> has_identity u (userState ?s)"
  proof
    assume a': "(h, u) \<in> set (timeouts ?s)"
    from armed_before [OF g Cons.prems(2) a'] have a: "(h, u) \<in> set (timeouts st)" .
    with Cons.prems(3) have "has_identity u (userState st)" by simp
    from step_keeps_identity_js [OF Cons.prems(1) a a' this]
    show "has_identity u (userState ?s)" .
  qed
  show ?case
  proof (cases "step_js parse ev st")
    case (Returned st1)
    then have e: "?s = st1" by simp
    from Cons.prems(4) Returned have "(h, u) \<in> set (timeouts (state_of (run_js parse evs st1)))"
      by simp
    from Cons.IH [OF ok [unfolded e] lt [unfolded e] j [unfolded e] this] Returned
    show ?thesis by simp
  next
    case (Threw x st1)
    then have e: "?s = st1" by simp
    from Cons.prems(4) Threw have "(h, u) \<in> set (timeouts st1)" by simp
    with j [unfolded e] Threw show ?thesis by simp
  qed
qed

lemma announce_keeps_timer:
  assumes ok: "timers_ok st" and rec: "timers_recorded st" and a: "(h, u) \<in> set (timeouts st)"
    and ne: "truthy (field r ''user'') \<Longrightarrow> key_of (field (field r ''user'') ''id'') \<noteq> key_of u"
  shows "(h, u) \<in> set (timeouts (announce r ws st))"
proof (cases "truthy (field r ''user'') \<and> truthy (field (field r ''user'') ''id'')")
  case True
  let ?x = "st\<lparr>currentUserId := (currentUserId st)(ws := field (field r ''user'') ''id'')\<rparr>"
  have x: "timers_ok ?x" "timers_recorded ?x" "(h, u) \<in> set (timeouts ?x)"
    using ok rec a by simp_all
  have ne': "key_of (field (field r ''user'') ''id'') \<noteq> key_of u" using ne True by simp
  from other_identity_keeps_timer(1) [OF x ne'] True
  show ?thesis by (simp add: announce_def Let_def)
next
  case False
  then have "announce r ws st = st" by (auto simp add: announce_def)
  with a show ?thesis by simp
qed

lemma join_branch_keeps_timer:
  assumes ok: "timers_ok st" and rec: "timers_recorded st" and a: "(h, u) \<in> set (timeouts st)"
    and ne: "truthy (field r ''user'') \<Longrightarrow> key_of (field (field r ''user'') ''id'') \<noteq> key_of u"
  shows "(h, u) \<in> set (timeouts (join_branch r ws st))"
proof (cases "truthy (field r ''user'')")
  case True
  let ?x = "st\<lparr>currentUserId := (currentUserId st)(ws := field (field r ''user'') ''id'')\<rparr>"
  have x: "timers_ok ?x" "timers_recorded ?x" "(h, u) \<in> set (timeouts ?x)"
    using ok rec a by simp_all
  have ne': "key_of (field (field r ''user'') ''id'') \<noteq> key_of u" using ne True by simp
  from other_identity_keeps_timer(1) [OF x ne'] True
  show ?thesis by (simp add: join_branch_def Let_def)
next
  case False
  with a show ?thesis by (simp add: join_branch_def)
qed

lemma exit_branch_keeps_timer:
  assumes ok: "timers_ok st" and rec: "timers_recorded st" and a: "(h, u) \<in> set (timeouts st)"
    and ne: "key_of (currentUserId st ws) \<noteq> key_of u"
  shows "(h, u) \<in> set (timeouts (exit_branch ws st))"
  using other_identity_keeps_timer(2) [OF ok rec a ne] a
  by (simp add: exit_branch_def Let_def)

lemma on_close_keeps_timer:
  assumes ok: "timers_ok st" and rec: "timers_recorded st" and a: "(h, u) \<in> set (timeouts st)"
    and ne: "key_of (currentUserId st ws) \<noteq> key_of u"
  shows "(h, u) \<in> set (timeouts (on_close ws st))"
  using other_identity_keeps_timer(2) [OF ok rec a ne] a
  by (simp add: on_close_def)

lemma currentUserId_announce:
  "currentUserId (announce r ws st) ws =
     (if truthy (field r ''user'') \<and> truthy (field (field r ''user'') ''id'')
      then field (field r ''user'') ''id'' else currentUserId st ws)"
  by (simp add: announce_def Let_def)

lemma received_keeps_timer:
  assumes ok: "timers_ok st" and rec: "timers_recorded st" and a: "(h, u) \<in> set (timeouts st)"
    and n1: "truthy (field r ''user'') \<Longrightarrow> key_of (field (field r ''user'') ''id'') \<noteq> key_of u"
    and n2: "field r ''type'' = JStr ''exit'' \<Longrightarrow> key_of (currentUserId st ws) \<noteq> key_of u"
  shows "(h, u) \<in> set (timeouts (state_of (received r msg b ws st)))"
proof (cases "nullish r")
  case True
  with a show ?thesis by (simp add: received_def Let_def)
next
  case False
  let ?l = "emit (Logged Info ''Message received'') st"
  let ?a = "announce r ws ?l"
  have okl: "timers_ok ?l" "timers_recorded ?l" "(h, u) \<in> set (timeouts ?l)"
    using ok rec a by simp_all
  have aa: "(h, u) \<in> set (timeouts ?a)"
    using announce_keeps_timer [OF okl n1] by simp
  have oka: "timers_ok ?a" using okl(1) by (rule timers_ok_announce)
  have reca: "timers_recorded ?a" using okl(1,2) by (rule timers_recorded_announce)
  show ?thesis
  proof (cases "field r ''type'' = JStr ''exit''")
    case True
    have "key_of (currentUserId ?a ws) \<noteq> key_of u"
      using n1 n2 [OF True] by (simp add: currentUserId_announce)
    from exit_branch_keeps_timer [OF oka reca aa this] True False
    show ?thesis by (simp add: received_def Let_def)
  next
    case ne: False
    let ?s = "if field r ''type'' = JStr ''send'' then send_branch r msg b ?a else ?a"
    have oks: "timers_ok ?s" using oka by (simp add: timers_ok_send_branch)
    have recs: "timers_recorded ?s" using reca by simp
    have as: "(h, u) \<in> set (timeouts ?s)" using aa by simp
    have js: "(h, u) \<in> set (timeouts (join_branch r ws ?s))"
      using join_branch_keeps_timer [OF oks recs as n1] by simp
    show ?thesis
    proof (cases "field r ''type'' = JStr ''join''")
      case True
      then have "state_of (received r msg b ws st) = join_branch r ws ?s"
        using ne False by (simp add: received_def Let_def)
      with js show ?thesis by simp
    next
      case nj: False
      then have "state_of (received r msg b ws st) = ?s"
        using ne False by (simp add: received_def Let_def)
      with as show ?thesis by simp
    qed
  qed
qed

lemma fire_other_keeps_timer:
  assumes ok: "timers_ok st" and a: "(h, u) \<in> set (timeouts st)"
    and ne: "\<And>v. map_of (timeouts st) h' = Some v \<Longrightarrow> key_of v \<noteq> key_of u"
  shows "(h, u) \<in> set (timeouts (fire h' st))"
proof (cases "h' = h")
  case True
  have "distinct (map fst (timeouts st))" using ok by (simp add: timers_ok_def)
  then have "map_of (timeouts st) h = Some u" using a by (rule map_of_is_SomeI)
  with ne True show ?thesis by blast
next
  case False
  from other_timer_keeps_timer [OF a False] show ?thesis .
qed

lemma stays_armed_step:
  assumes ok: "timers_ok st" and rec: "timers_recorded st" and a: "(h, u) \<in> set (timeouts st)"
    and nt: "\<not> touches parse (key_of u) st ev"
  shows "(h, u) \<in> set (timeouts (state_of (step parse ev st)))"
proof (cases ev)
  case (Connect ws)
  with a show ?thesis by (simp add: step_def on_connection_def)
next
  case (Message ws msg b)
  show ?thesis
  proof (cases "parse msg")
    case None
    with a Message show ?thesis by (simp add: step_def on_message_def)
  next
    case (Some r)
    with nt Message
    have n1: "truthy (field r ''user'') \<Longrightarrow> key_of (field (field r ''user'') ''id'') \<noteq> key_of u"
      and n2: "field r ''type'' = JStr ''exit'' \<Longrightarrow> key_of (currentUserId st ws) \<noteq> key_of u"
      by (auto simp add: touches_def)
    from received_keeps_timer [OF ok rec a n1 n2] Some Message
    show ?thesis by (simp add: step_def on_message_def)
  qed
next
  case (Close ws)
  let ?x = "st\<lparr>clients := filter (\<lambda>cr. fst cr \<noteq> ws) (clients st)\<rparr>"
  have x: "timers_ok ?x" "timers_recorded ?x" "(h, u) \<in> set (timeouts ?x)"
    using ok rec a by simp_all
  have "key_of (currentUserId ?x ws) \<noteq> key_of u"
    using nt Close by (simp add: touches_def)
  from on_close_keeps_timer [OF x this] Close show ?thesis by (simp add: step_def)
next
  case (Timeout h')
  have "key_of v \<noteq> key_of u" if "map_of (timeouts st) h' = Some v" for v
    using nt Timeout that by (simp add: touches_def)
  from fire_other_keeps_timer [OF ok a this] Timeout show ?thesis by (simp add: step_def)
next
  case (NewUser body uuid)
  with a show ?thesis by (simp add: step_def new_user_def Let_def)
qed

lemma stays_armed_step_js:
  assumes "timers_ok st" and "timers_recorded st" and "(h, u) \<in> set (timeouts st)"
    and "\<not> touches parse (key_of u) st ev"
  shows "(h, u) \<in> set (timeouts (state_of (step_js parse ev st)))"
  using stays_armed_step [OF assms] step_js_core [of parse ev st] by (simp add: same_core_def)

lemma stays_armed_run:
  assumes "timers_ok st" and "timers_recorded st" and "(h, u) \<in> set (timeouts st)"
    and "undisturbed parse (key_of u) evs st"
  shows "(h, u) \<in> set (timeouts (state_of (run parse evs st)))"
  using assms
proof (induction evs arbitrary: st)
  case Nil
  then show ?case by simp
next
  case (Cons ev evs)
  let ?s = "state_of (step parse ev st)"
  have nt: "\<not> touches parse (key_of u) st ev" using Cons.prems(4) by simp
  have ok: "timers_ok ?s" using Cons.prems(1) by (rule timers_ok_step)
  have rec: "timers_recorded ?s" using Cons.prems(1,2) by (rule timers_recorded_step)
  have a: "(h, u) \<in> set (timeouts ?s)"
    using stays_armed_step [OF Cons.prems(1,2,3) nt] .
  show ?case
  proof (cases "step parse ev st")
    case (Returned st1)
    then have e: "?s = st1" by simp
    have "undisturbed parse (key_of u) evs st1" using Cons.prems(4) Returned by simp
    from Cons.IH [OF ok [unfolded e] rec [unfolded e] a [unfolded e] this] Returned
    show ?thesis by simp
  next
    case (Threw x st1)
    with a show ?thesis by simp
  qed
qed

lemma stays_armed_run_js:
  assumes "timers_ok st" and "timers_recorded st" and "(h, u) \<in> set (timeouts st)"
    and "undisturbed_js parse (key_of u) evs st"
  shows "(h, u) \<in> set (timeouts (state_of (run_js parse evs st)))"
  using assms
proof (induction evs arbitrary: st)
  case Nil
  then show ?case by simp
next
  case (Cons ev evs)
  let ?s = "state_of (step_js parse ev st)"
  have nt: "\<not> touches parse (key_of u) st ev" using Cons.prems(4) by simp
  have ok: "timers_ok ?s" using Cons.prems(1) by (rule timers_ok_step_js)
  have rec: "timers_recorded ?s" using Cons.prems(1,2) by (rule timers_recorded_step_js)
  have a: "(h, u) \<in> set (timeouts ?s)"
    using stays_armed_step_js [OF Cons.prems(1,2,3) nt] .
  show ?case
  proof (cases "step_js parse ev st")
    case (Returned st1)
    then have e: "?s = st1" by simp
    have "undisturbed_js parse (key_of u) evs st1" using Cons.prems(4) Returned by simp
    from Cons.IH [OF ok [unfolded e] rec [unfolded e] a [unfolded e] this] Returned
    show ?thesis by simp
  next
    case (Threw x st1)
    with a show ?thesis by simp
  qed
qed

subsection \<open>Scheduling twice\<close>

lemma fire_js_evicts:
  assumes "map_of (timeouts st) h = Some u"
    and "findIndex (\<lambda>x. strict_eq (uid x) u) (userState st) = Some idx"
  shows "userState (fire_js h st) = splice1 idx (userState st)"
    and "trace (fire_js h st) =
      trace st @ [Wrote (splice1 idx (userState st)),
                  Logged Info ''User deleted after 1 minute timeout'']"
    and "deletionTimers (fire_js h st) = (deletionTimers st)(key_of u := None)"
    and "timeouts (fire_js h st) = filter (\<lambda>hu. fst hu \<noteq> h) (timeouts st)"
  using assms by (simp_all add: fire_js_def deletion_callback_js_def Let_def)

lemma fire_finds_nothing:
  assumes "map_of (timeouts st) h = Some u"
    and "findIndex (\<lambda>x. strict_eq (uid x) u) (userState st) = None"
  shows "userState (fire h st) = userState st" and "trace (fire h st) = trace st"
    and "userState (fire_js h st) = userState st" and "trace (fire_js h st) = trace st"
  using assms
  by (simp_all add: fire_def deletion_callback_def fire_js_def deletion_callback_js_def Let_def)

lemma pending_fire_js: "pending k (fire_js h st) = filter (\<lambda>hu. fst hu \<noteq> h) (pending k st)"
  using fire_js_core [of h st] pending_fire [of k h st] by (simp add: pending_def same_core_def)

lemma fire_not_armed:
  "h \<notin> fst ` set (timeouts st) \<Longrightarrow> fire h st = st"
  "h \<notin> fst ` set (timeouts st) \<Longrightarrow> fire_js h st = st"
  by (simp_all add: fire_def fire_js_def map_of_eq_None_iff [symmetric])

lemma handles_after_fire:
  "fst ` set (timeouts (fire h st)) \<subseteq> fst ` set (timeouts st) - {h}"
  "fst ` set (timeouts (fire_js h st)) \<subseteq> fst ` set (timeouts st) - {h}"
proof -
  show "fst ` set (timeouts (fire h st)) \<subseteq> fst ` set (timeouts st) - {h}"
  proof (cases "map_of (timeouts st) h")
    case None
    then have "fire h st = st" by (simp add: fire_def)
    moreover from None have "h \<notin> fst ` set (timeouts st)" by (simp add: map_of_eq_None_iff)
    ultimately show ?thesis by auto
  next
    case (Some v)
    then have "timeouts (fire h st) = filter (\<lambda>hu. fst hu \<noteq> h) (timeouts st)"
      by (simp add: fire_def)
    then show ?thesis by auto
  qed
  then show "fst ` set (timeouts (fire_js h st)) \<subseteq> fst ` set (timeouts st) - {h}"
    using fire_js_core [of h st] by (simp add: same_core_def)
qed

lemma rearm_timers:
  assumes ok: "timers_ok st"
    and s1: "st1 = scheduleDeletion u st" and s2: "st2 = scheduleDeletion u st1"
  shows "pending (key_of u) st1 = [(nextTimer st, u)]"
    and "pending (key_of u) st2 = [(Suc (nextTimer st), u)]"
    and "deletionTimers st2 (key_of u) = Some (Suc (nextTimer st))"
    and "nextTimer st \<notin> fst ` set (timeouts st2)"
    and "map_of (timeouts st2) (Suc (nextTimer st)) = Some u"
    and "userState st2 = userState st" and "trace st2 = trace st"
    and "open_clients st2 = open_clients st"
proof -
  have ok1: "timers_ok st1" unfolding s1 using ok by (rule timers_ok_scheduleDeletion)
  have ok2: "timers_ok st2" unfolding s2 using ok1 by (rule timers_ok_scheduleDeletion)
  show "pending (key_of u) st1 = [(nextTimer st, u)]"
    unfolding s1 using ok by (rule pending_scheduleDeletion)
  show p2: "pending (key_of u) st2 = [(Suc (nextTimer st), u)]"
    using pending_scheduleDeletion [OF ok1, of u] by (simp add: s1 s2)
  show "deletionTimers st2 (key_of u) = Some (Suc (nextTimer st))"
    by (simp add: s1 s2)
  show "nextTimer st \<notin> fst ` set (timeouts st2)"
    unfolding s2 by (auto simp add: scheduleDeletion_timeouts s1)
  have "(Suc (nextTimer st), u) \<in> set (timeouts st2)"
    by (simp add: s1 s2 scheduleDeletion_timeouts)
  moreover have "distinct (map fst (timeouts st2))" using ok2 by (simp add: timers_ok_def)
  ultimately show "map_of (timeouts st2) (Suc (nextTimer st)) = Some u"
    by (simp add: map_of_is_SomeI)
  show "userState st2 = userState st" "trace st2 = trace st" "open_clients st2 = open_clients st"
    by (simp_all add: s1 s2)
qed

lemma rearm_part_000:
  assumes ok: "timers_ok st"
    and s1: "st1 = scheduleDeletion u st" and s2: "st2 = scheduleDeletion u st1"
  shows "(\<forall>k. length (pending k st) \<le> 1) \<and>
         pending (key_of u) st1 = [(nextTimer st, u)] \<and>
         pending (key_of u) st2 = [(Suc (nextTimer st), u)] \<and>
         deletionTimers st2 (key_of u) = Some (Suc (nextTimer st)) \<and>
         nextTimer st \<notin> fst ` set (timeouts st2) \<and>
         fire (nextTimer st) st2 = st2 \<and>
         fire (Suc (nextTimer st)) st2 =
           deletion_callback u (clearTimeout (Suc (nextTimer st)) st2) \<and>
         (\<forall>idx. findIndex (\<lambda>x. strict_eq (uid x) u) (userState st) = Some idx \<longrightarrow>
            userState (fire (Suc (nextTimer st)) st2) = splice1 idx (userState st) \<and>
            trace (fire (Suc (nextTimer st)) st2) =
              trace st @ [Wrote (splice1 idx (userState st))] @
              map (\<lambda>c. Sent c (Roster (splice1 idx (userState st)))) (open_clients st) @
              [Logged Info ''Broadcasted updated userState to all clients'',
               Logged Info ''User deleted after 1 minute timeout'']) \<and>
         (findIndex (\<lambda>x. strict_eq (uid x) u) (userState st) = None \<longrightarrow>
            userState (fire (Suc (nextTimer st)) st2) = userState st \<and>
            trace (fire (Suc (nextTimer st)) st2) = trace st) \<and>
         deletionTimers (fire (Suc (nextTimer st)) st2) (key_of u) = None \<and>
         pending (key_of u) (fire (Suc (nextTimer st)) st2) = [] \<and>
         fire (nextTimer st) (fire (Suc (nextTimer st)) st2) = fire (Suc (nextTimer st)) st2 \<and>
         fire (Suc (nextTimer st)) (fire (Suc (nextTimer st)) st2) = fire (Suc (nextTimer st)) st2"
proof -
  let ?n = "nextTimer st"
  note r = rearm_timers [OF ok s1 s2]
  have all: "\<forall>k. length (pending k st) \<le> 1"
    using pending_at_most_one [OF ok] by blast
  have f1: "fire ?n st2 = st2" using r(4) by (rule fire_not_armed(1))
  have f2: "fire (Suc ?n) st2 = deletion_callback u (clearTimeout (Suc ?n) st2)"
    using r(5) by (simp add: fire_def)
  have f3: "\<forall>idx. findIndex (\<lambda>x. strict_eq (uid x) u) (userState st) = Some idx \<longrightarrow>
            userState (fire (Suc ?n) st2) = splice1 idx (userState st) \<and>
            trace (fire (Suc ?n) st2) =
              trace st @ [Wrote (splice1 idx (userState st))] @
              map (\<lambda>c. Sent c (Roster (splice1 idx (userState st)))) (open_clients st) @
              [Logged Info ''Broadcasted updated userState to all clients'',
               Logged Info ''User deleted after 1 minute timeout'']"
  proof (intro allI impI)
    fix idx
    assume "findIndex (\<lambda>x. strict_eq (uid x) u) (userState st) = Some idx"
    then have i: "findIndex (\<lambda>x. strict_eq (uid x) u) (userState st2) = Some idx"
      by (simp add: r(6))
    from fire_evicts(1,2) [OF r(5) i]
    show "userState (fire (Suc ?n) st2) = splice1 idx (userState st) \<and>
            trace (fire (Suc ?n) st2) =
              trace st @ [Wrote (splice1 idx (userState st))] @
              map (\<lambda>c. Sent c (Roster (splice1 idx (userState st)))) (open_clients st) @
              [Logged Info ''Broadcasted updated userState to all clients'',
               Logged Info ''User deleted after 1 minute timeout'']"
      by (simp add: r(6,7,8))
  qed
  have f4: "findIndex (\<lambda>x. strict_eq (uid x) u) (userState st) = None \<longrightarrow>
            userState (fire (Suc ?n) st2) = userState st \<and>
            trace (fire (Suc ?n) st2) = trace st"
    using fire_finds_nothing(1,2) [OF r(5)] by (simp add: r(6,7))
  have f5: "deletionTimers (fire (Suc ?n) st2) (key_of u) = None"
    using r(5) by (simp add: fire_def)
  have f6: "pending (key_of u) (fire (Suc ?n) st2) = []"
    by (simp add: pending_fire r(2))
  have h: "fst ` set (timeouts (fire (Suc ?n) st2)) \<subseteq> fst ` set (timeouts st2) - {Suc ?n}"
    by (rule handles_after_fire(1))
  have "?n \<notin> fst ` set (timeouts (fire (Suc ?n) st2))" using h r(4) by blast
  then have f7: "fire ?n (fire (Suc ?n) st2) = fire (Suc ?n) st2" by (rule fire_not_armed(1))
  have "Suc ?n \<notin> fst ` set (timeouts (fire (Suc ?n) st2))" using h by blast
  then have f8: "fire (Suc ?n) (fire (Suc ?n) st2) = fire (Suc ?n) st2"
    by (rule fire_not_armed(1))
  show ?thesis
    using all r(1,2,3,4) f1 f2 f3 f4 f5 f6 f7 f8 by blast
qed

lemma rearm_server_js:
  assumes ok: "timers_ok st"
    and s1: "st1 = scheduleDeletion u st" and s2: "st2 = scheduleDeletion u st1"
  shows "(\<forall>k. length (pending k st) \<le> 1) \<and>
         pending (key_of u) st1 = [(nextTimer st, u)] \<and>
         pending (key_of u) st2 = [(Suc (nextTimer st), u)] \<and>
         deletionTimers st2 (key_of u) = Some (Suc (nextTimer st)) \<and>
         nextTimer st \<notin> fst ` set (timeouts st2) \<and>
         fire_js (nextTimer st) st2 = st2 \<and>
         fire_js (Suc (nextTimer st)) st2 =
           deletion_callback_js u (clearTimeout (Suc (nextTimer st)) st2) \<and>
         (\<forall>idx. findIndex (\<lambda>x. strict_eq (uid x) u) (userState st) = Some idx \<longrightarrow>
            userState (fire_js (Suc (nextTimer st)) st2) = splice1 idx (userState st) \<and>
            trace (fire_js (Suc (nextTimer st)) st2) =
              trace st @ [Wrote (splice1 idx (userState st)),
                          Logged Info ''User deleted after 1 minute timeout'']) \<and>
         (findIndex (\<lambda>x. strict_eq (uid x) u) (userState st) = None \<longrightarrow>
            userState (fire_js (Suc (nextTimer st)) st2) = userState st \<and>
            trace (fire_js (Suc (nextTimer st)) st2) = trace st) \<and>
         deletionTimers (fire_js (Suc (nextTimer st)) st2) (key_of u) = None \<and>
         pending (key_of u) (fire_js (Suc (nextTimer st)) st2) = [] \<and>
         fire_js (nextTimer st) (fire_js (Suc (nextTimer st)) st2) =
           fire_js (Suc (nextTimer st)) st2 \<and>
         fire_js (Suc (nextTimer st)) (fire_js (Suc (nextTimer st)) st2) =
           fire_js (Suc (nextTimer st)) st2"
proof -
  let ?n = "nextTimer st"
  note r = rearm_timers [OF ok s1 s2]
  have all: "\<forall>k. length (pending k st) \<le> 1"
    using pending_at_most_one [OF ok] by blast
  have f1: "fire_js ?n st2 = st2" using r(4) by (rule fire_not_armed(2))
  have f2: "fire_js (Suc ?n) st2 = deletion_callback_js u (clearTimeout (Suc ?n) st2)"
    using r(5) by (simp add: fire_js_def)
  have f3: "\<forall>idx. findIndex (\<lambda>x. strict_eq (uid x) u) (userState st) = Some idx \<longrightarrow>
            userState (fire_js (Suc ?n) st2) = splice1 idx (userState st) \<and>
            trace (fire_js (Suc ?n) st2) =
              trace st @ [Wrote (splice1 idx (userState st)),
                          Logged Info ''User deleted after 1 minute timeout'']"
  proof (intro allI impI)
    fix idx
    assume "findIndex (\<lambda>x. strict_eq (uid x) u) (userState st) = Some idx"
    then have i: "findIndex (\<lambda>x. strict_eq (uid x) u) (userState st2) = Some idx"
      by (simp add: r(6))
    from fire_js_evicts(1,2) [OF r(5) i]
    show "userState (fire_js (Suc ?n) st2) = splice1 idx (userState st) \<and>
            trace (fire_js (Suc ?n) st2) =
              trace st @ [Wrote (splice1 idx (userState st)),
                          Logged Info ''User deleted after 1 minute timeout'']"
      by (simp add: r(6,7))
  qed
  have f4: "findIndex (\<lambda>x. strict_eq (uid x) u) (userState st) = None \<longrightarrow>
            userState (fire_js (Suc ?n) st2) = userState st \<and>
            trace (fire_js (Suc ?n) st2) = trace st"
    using fire_finds_nothing(3,4) [OF r(5)] by (simp add: r(6,7))
  have f5: "deletionTimers (fire_js (Suc ?n) st2) (key_of u) = None"
    using r(5) by (simp add: fire_js_def deletion_callback_js_def Let_def split: option.splits)
  have f6: "pending (key_of u) (fire_js (Suc ?n) st2) = []"
    by (simp add: pending_fire_js r(2))
  have h: "fst ` set (timeouts (fire_js (Suc ?n) st2)) \<subseteq> fst ` set (timeouts st2) - {Suc ?n}"
    by (rule handles_after_fire(2))
  have "?n \<notin> fst ` set (timeouts (fire_js (Suc ?n) st2))" using h r(4) by blast
  then have f7: "fire_js ?n (fire_js (Suc ?n) st2) = fire_js (Suc ?n) st2"
    by (rule fire_not_armed(2))
  have "Suc ?n \<notin> fst ` set (timeouts (fire_js (Suc ?n) st2))" using h by blast
  then have f8: "fire_js (Suc ?n) (fire_js (Suc ?n) st2) = fire_js (Suc ?n) st2"
    by (rule fire_not_armed(2))
  show ?thesis
    using all r(1,2,3,4) f1 f2 f3 f4 f5 f6 f7 f8 by blast
qed

text \<open>
  C7: in every state that a run of the server reaches, every identity has at most one
  armed timeout. Scheduling the deletion of an identity twice in a row leaves exactly one,
  the second: the first is cleared, its handle is no longer armed and firing it does
  nothing. Firing the second runs the deletion callback for the identity, once: an
  identity with that id is removed from the roster and the roster is written (and, in
  the variant with the history, sent to the open clients); with no such identity the
  callback changes nothing but the timer record. After it no timeout is left for the
  identity, and neither handle fires again. The same holds of \<^verbatim>\<open>src/server.js\<close>,
  whose callback sends nothing.
\<close>

theorem rearm_supersedes:
  assumes "st = state_of (run parse evs (boot roster))"
    and "st1 = scheduleDeletion u st" and "st2 = scheduleDeletion u st1"
    and "sj = state_of (run_js parse evs (boot roster))"
    and "sj1 = scheduleDeletion u sj" and "sj2 = scheduleDeletion u sj1"
  shows "((\<forall>k. length (pending k st) \<le> 1) \<and>
         pending (key_of u) st1 = [(nextTimer st, u)] \<and>
         pending (key_of u) st2 = [(Suc (nextTimer st), u)] \<and>
         deletionTimers st2 (key_of u) = Some (Suc (nextTimer st)) \<and>
         nextTimer st \<notin> fst ` set (timeouts st2) \<and>
         fire (nextTimer st) st2 = st2 \<and>
         fire (Suc (nextTimer st)) st2 =
           deletion_callback u (clearTimeout (Suc (nextTimer st)) st2) \<and>
         (\<forall>idx. findIndex (\<lambda>x. strict_eq (uid x) u) (userState st) = Some idx \<longrightarrow>
            userState (fire (Suc (nextTimer st)) st2) = splice1 idx (userState st) \<and>
            trace (fire (Suc (nextTimer st)) st2) =
              trace st @ [Wrote (splice1 idx (userState st))] @
              map (\<lambda>c. Sent c (Roster (splice1 idx (userState st)))) (open_clients st) @
              [Logged Info ''Broadcasted updated userState to all clients'',
               Logged Info ''User deleted after 1 minute timeout'']) \<and>
         (findIndex (\<lambda>x. strict_eq (uid x) u) (userState st) = None \<longrightarrow>
            userState (fire (Suc (nextTimer st)) st2) = userState st \<and>
            trace (fire (Suc (nextTimer st)) st2) = trace st) \<and>
         deletionTimers (fire (Suc (nextTimer st)) st2) (key_of u) = None \<and>
         pending (key_of u) (fire (Suc (nextTimer st)) st2) = [] \<and>
         fire (nextTimer st) (fire (Suc (nextTimer st)) st2) = fire (Suc (nextTimer st)) st2 \<and>
         fire (Suc (nextTimer st)) (fire (Suc (nextTimer st)) st2) =
           fire (Suc (nextTimer st)) st2) \<and>
        ((\<forall>k. length (pending k sj) \<le> 1) \<and>
         pending (key_of u) sj1 = [(nextTimer sj, u)] \<and>
         pending (key_of u) sj2 = [(Suc (nextTimer sj), u)] \<and>
         deletionTimers sj2 (key_of u) = Some (Suc (nextTimer sj)) \<and>
         nextTimer sj \<notin> fst ` set (timeouts sj2) \<and>
         fire_js (nextTimer sj) sj2 = sj2 \<and>
         fire_js (Suc (nextTimer sj)) sj2 =
           deletion_callback_js u (clearTimeout (Suc (nextTimer sj)) sj2) \<and>
         (\<forall>idx. findIndex (\<lambda>x. strict_eq (uid x) u) (userState sj) = Some idx \<longrightarrow>
            userState (fire_js (Suc (nextTimer sj)) sj2) = splice1 idx (userState sj) \<and>
            trace (fire_js (Suc (nextTimer sj)) sj2) =
              trace sj @ [Wrote (splice1 idx (userState sj)),
                          Logged Info ''User deleted after 1 minute timeout'']) \<and>
         (findIndex (\<lambda>x. strict_eq (uid x) u) (userState sj) = None \<longrightarrow>
            userState (fire_js (Suc (nextTimer sj)) sj2) = userState sj \<and>
            trace (fire_js (Suc (nextTimer sj)) sj2) = trace sj) \<and>
         deletionTimers (fire_js (Suc (nextTimer sj)) sj2) (key_of u) = None \<and>
         pending (key_of u) (fire_js (Suc (nextTimer sj)) sj2) = [] \<and>
         fire_js (nextTimer sj) (fire_js (Suc (nextTimer sj)) sj2) =
           fire_js (Suc (nextTimer sj)) sj2 \<and>
         fire_js (Suc (nextTimer sj)) (fire_js (Suc (nextTimer sj)) sj2) =
           fire_js (Suc (nextTimer sj)) sj2)"
proof -
  have ok: "timers_ok st"
    unfolding assms(1) by (rule timers_ok_run) (rule timers_ok_boot)
  have okj: "timers_ok sj"
    unfolding assms(4) by (rule timers_ok_run_js) (rule timers_ok_boot)
  from rearm_part_000 [OF ok assms(2,3)] rearm_server_js [OF okj assms(5,6)]
  show ?thesis by (rule conjI)
qed

theorem rearm_supersedes_witness:
  "pending (KStr ''A'')
     (scheduleDeletion (JStr ''A'') (scheduleDeletion (JStr ''A'')
        (boot [\<lparr>uid = JStr ''A'', uname = JStr ''alice''\<rparr>]))) = [(1, JStr ''A'')] \<and>
   fire 0 (scheduleDeletion (JStr ''A'') (scheduleDeletion (JStr ''A'')
        (boot [\<lparr>uid = JStr ''A'', uname = JStr ''alice''\<rparr>]))) =
     scheduleDeletion (JStr ''A'') (scheduleDeletion (JStr ''A'')
        (boot [\<lparr>uid = JStr ''A'', uname = JStr ''alice''\<rparr>])) \<and>
   userState (fire 1 (scheduleDeletion (JStr ''A'') (scheduleDeletion (JStr ''A'')
        (boot [\<lparr>uid = JStr ''A'', uname = JStr ''alice''\<rparr>])))) = [] \<and>
   trace (fire 1 (scheduleDeletion (JStr ''A'') (scheduleDeletion (JStr ''A'')
        (boot [\<lparr>uid = JStr ''A'', uname = JStr ''alice''\<rparr>])))) =
     [Wrote [], Logged Info ''Broadcasted updated userState to all clients'',
      Logged Info ''User deleted after 1 minute timeout''] \<and>
   userState (fire_js 1 (scheduleDeletion (JStr ''A'') (scheduleDeletion (JStr ''A'')
        (boot [\<lparr>uid = JStr ''A'', uname = JStr ''alice''\<rparr>])))) = [] \<and>
   trace (fire_js 1 (scheduleDeletion (JStr ''A'') (scheduleDeletion (JStr ''A'')
        (boot [\<lparr>uid = JStr ''A'', uname = JStr ''alice''\<rparr>])))) =
     [Wrote [], Logged Info ''User deleted after 1 minute timeout'']"
proof -
  let ?B = "boot [\<lparr>uid = JStr ''A'', uname = JStr ''alice''\<rparr>]"
  have b: "?B = state_of (run (\<lambda>s. None) [] ?B)"
    and bj: "?B = state_of (run_js (\<lambda>s. None) [] ?B)" by simp_all
  have n: "nextTimer ?B = 0" and us: "userState ?B = [\<lparr>uid = JStr ''A'', uname = JStr ''alice''\<rparr>]"
    and tr: "trace ?B = []" and oc: "open_clients ?B = []"
    by (simp_all add: boot_def open_clients_def)
  have i: "findIndex (\<lambda>x. strict_eq (uid x) (JStr ''A'')) (userState ?B) = Some 0"
    unfolding us by (simp add: strict_eq_def)
  let ?S = "scheduleDeletion (JStr ''A'') (scheduleDeletion (JStr ''A'') ?B)"
  note t = rearm_supersedes [OF b refl refl bj refl refl, of "JStr ''A''"]
  from t have p: "pending (key_of (JStr ''A'')) ?S = [(Suc (nextTimer ?B), JStr ''A'')]"
    by blast
  from t have f: "fire (nextTimer ?B) ?S = ?S" by blast
  from t i have e: "userState (fire (Suc (nextTimer ?B)) ?S) = splice1 0 (userState ?B) \<and>
      trace (fire (Suc (nextTimer ?B)) ?S) =
        trace ?B @ [Wrote (splice1 0 (userState ?B))] @
        map (\<lambda>c. Sent c (Roster (splice1 0 (userState ?B)))) (open_clients ?B) @
        [Logged Info ''Broadcasted updated userState to all clients'',
         Logged Info ''User deleted after 1 minute timeout'']"
    by blast
  from t i have ej: "userState (fire_js (Suc (nextTimer ?B)) ?S) = splice1 0 (userState ?B) \<and>
      trace (fire_js (Suc (nextTimer ?B)) ?S) =
        trace ?B @ [Wrote (splice1 0 (userState ?B)),
                    Logged Info ''User deleted after 1 minute timeout'']"
    by blast
  from p f e ej show ?thesis unfolding n us tr oc by (simp add: splice1_def)
qed

subsection \<open>Eviction after the grace period\<close>

lemma eviction_part_000:
  assumes reach: "st0 = state_of (run parse evs0 (boot roster))"
    and member: "has_identity u (userState st0)"
    and later: "run parse evs (scheduleDeletion u st0) = Returned st"
    and quiet: "undisturbed parse (key_of u) evs (scheduleDeletion u st0)"
  shows "(nextTimer st0, u) \<in> set (timeouts st) \<and>
    (\<exists>idx. findIndex (\<lambda>x. strict_eq (uid x) u) (userState st) = Some idx \<and>
       idx < length (userState st) \<and> strict_eq (uid (userState st ! idx)) u \<and>
       userState (fire (nextTimer st0) st) = splice1 idx (userState st) \<and>
       trace (fire (nextTimer st0) st) =
         trace st @ [Wrote (splice1 idx (userState st))] @
         map (\<lambda>c. Sent c (Roster (splice1 idx (userState st)))) (open_clients st) @
         [Logged Info ''Broadcasted updated userState to all clients'',
          Logged Info ''User deleted after 1 minute timeout''] \<and>
       deletionTimers (fire (nextTimer st0) st) (key_of u) = None \<and>
       pending (key_of u) (fire (nextTimer st0) st) = [])"
proof -
  let ?h = "nextTimer st0"
  let ?s1 = "scheduleDeletion u st0"
  have ok0: "timers_ok st0" unfolding reach by (rule timers_ok_run) (rule timers_ok_boot)
  have rec0: "timers_recorded st0"
    unfolding reach by (rule timers_recorded_run) (rule timers_ok_boot, rule timers_recorded_boot)
  have ok1: "timers_ok ?s1" using ok0 by (rule timers_ok_scheduleDeletion)
  have rec1: "timers_recorded ?s1" using ok0 rec0 by (rule timers_recorded_scheduleDeletion)
  have st: "st = state_of (run parse evs ?s1)" using later by simp
  have ok: "timers_ok st" unfolding st using ok1 by (rule timers_ok_run)
  have c1: "(?h, u) \<in> set (timeouts ?s1)" by (simp add: scheduleDeletion_timeouts)
  have armed: "(?h, u) \<in> set (timeouts st)"
    unfolding st using ok1 rec1 c1 quiet by (rule stays_armed_run)
  have lt: "?h < nextTimer ?s1" by simp
  have j: "(?h, u) \<in> set (timeouts ?s1) \<longrightarrow> has_identity u (userState ?s1)"
    using member by simp
  have a: "(?h, u) \<in> set (timeouts (state_of (run parse evs ?s1)))"
    using armed st by simp
  from run_keeps_identity [OF ok1 lt j a] have hid: "has_identity u (userState st)"
    using st by simp
  then obtain idx where idx: "findIndex (\<lambda>x. strict_eq (uid x) u) (userState st) = Some idx"
    using findIndex_None_iff [of "\<lambda>x. strict_eq (uid x) u" "userState st"]
    by (auto simp add: has_identity_def)
  have "distinct (map fst (timeouts st))" using ok by (simp add: timers_ok_def)
  then have mo: "map_of (timeouts st) ?h = Some u" using armed by (rule map_of_is_SomeI)
  note f = fire_evicts [OF mo idx]
  have "\<forall>hu \<in> set (pending (key_of u) st). fst hu = ?h"
    using pending_same_handle [OF ok armed] by blast
  then have "filter (\<lambda>hu. fst hu \<noteq> ?h) (pending (key_of u) st) = []"
    by (simp add: filter_empty_conv)
  then have p: "pending (key_of u) (fire ?h st) = []" by (simp add: pending_fire)
  show ?thesis
    using armed idx findIndex_Some [OF idx] f(1) f(2) f(3) p by simp
qed

lemma eviction_server_js:
  assumes reach: "st0 = state_of (run_js parse evs0 (boot roster))"
    and member: "has_identity u (userState st0)"
    and later: "run_js parse evs (scheduleDeletion u st0) = Returned st"
    and quiet: "undisturbed_js parse (key_of u) evs (scheduleDeletion u st0)"
  shows "(nextTimer st0, u) \<in> set (timeouts st) \<and>
    (\<exists>idx. findIndex (\<lambda>x. strict_eq (uid x) u) (userState st) = Some idx \<and>
       idx < length (userState st) \<and> strict_eq (uid (userState st ! idx)) u \<and>
       userState (fire_js (nextTimer st0) st) = splice1 idx (userState st) \<and>
       trace (fire_js (nextTimer st0) st) =
         trace st @ [Wrote (splice1 idx (userState st)),
                     Logged Info ''User deleted after 1 minute timeout''] \<and>
       deletionTimers (fire_js (nextTimer st0) st) (key_of u) = None \<and>
       pending (key_of u) (fire_js (nextTimer st0) st) = [])"
proof -
  let ?h = "nextTimer st0"
  let ?s1 = "scheduleDeletion u st0"
  have ok0: "timers_ok st0" unfolding reach by (rule timers_ok_run_js) (rule timers_ok_boot)
  have rec0: "timers_recorded st0"
    unfolding reach
    by (rule timers_recorded_run_js) (rule timers_ok_boot, rule timers_recorded_boot)
  have ok1: "timers_ok ?s1" using ok0 by (rule timers_ok_scheduleDeletion)
  have rec1: "timers_recorded ?s1" using ok0 rec0 by (rule timers_recorded_scheduleDeletion)
  have st: "st = state_of (run_js parse evs ?s1)" using later by simp
  have ok: "timers_ok st" unfolding st using ok1 by (rule timers_ok_run_js)
  have c1: "(?h, u) \<in> set (timeouts ?s1)" by (simp add: scheduleDeletion_timeouts)
  have armed: "(?h, u) \<in> set (timeouts st)"
    unfolding st using ok1 rec1 c1 quiet by (rule stays_armed_run_js)
  have lt: "?h < nextTimer ?s1" by simp
  have j: "(?h, u) \<in> set (timeouts ?s1) \<longrightarrow> has_identity u (userState ?s1)"
    using member by simp
  have a: "(?h, u) \<in> set (timeouts (state_of (run_js parse evs ?s1)))"
    using armed st by simp
  from run_keeps_identity_js [OF ok1 lt j a] have hid: "has_identity u (userState st)"
    using st by simp
  then obtain idx where idx: "findIndex (\<lambda>x. strict_eq (uid x) u) (userState st) = Some idx"
    using findIndex_None_iff [of "\<lambda>x. strict_eq (uid x) u" "userState st"]
    by (auto simp add: has_identity_def)
  have "distinct (map fst (timeouts st))" using ok by (simp add: timers_ok_def)
  then have mo: "map_of (timeouts st) ?h = Some u" using armed by (rule map_of_is_SomeI)
  note f = fire_js_evicts [OF mo idx]
  have "\<forall>hu \<in> set (pending (key_of u) st). fst hu = ?h"
    using pending_same_handle [OF ok armed] by blast
  then have "filter (\<lambda>hu. fst hu \<noteq> ?h) (pending (key_of u) st) = []"
    by (simp add: filter_empty_conv)
  then have p: "pending (key_of u) (fire_js ?h st) = []" by (simp add: pending_fire_js)
  show ?thesis
    using armed idx findIndex_Some [OF idx] f(1) f(2) f(3) p by simp
qed

text \<open>
  C5 (the claim: when the timer fires the identity is removed, the roster is persisted,
  and a roster snapshot is broadcast to all open connections). In \<^verbatim>\<open>src/server.js\<close>
  the callback removes the identity and writes the roster but sends nothing: with
  connection 2 open, the trace ends with the write and the log line.
\<close>

theorem eviction_counterexample:
  "userState (fire_js 0 (state_of (run_js (\<lambda>s. None) [Connect 2]
      (scheduleDeletion (JStr ''A'') (boot [\<lparr>uid = JStr ''A'', uname = JStr ''alice''\<rparr>]))))) = [] \<and>
   trace (fire_js 0 (state_of (run_js (\<lambda>s. None) [Connect 2]
      (scheduleDeletion (JStr ''A'') (boot [\<lparr>uid = JStr ''A'', uname = JStr ''alice''\<rparr>]))))) =
     [Sent 2 (Roster [\<lparr>uid = JStr ''A'', uname = JStr ''alice''\<rparr>]),
      Wrote [], Logged Info ''User deleted after 1 minute timeout'']"
  by (simp add: step_js_def on_connection_def boot_def open_clients_def
      scheduleDeletion_timeouts fire_js_def deletion_callback_js_def Let_def
      clearTimeout_def strict_eq_def splice1_def saveUserState_def emit_def send_all_def)

text \<open>
  C5, amended: let the deletion of an identity of the roster be scheduled in a state
  that the server has reached, and let the server run on without an event that concerns
  the identity: no frame whose user names it (the cancel), no exit or close of a
  connection that represents it (a new schedule), and its timeout not yet fired. Then
  the timeout is still armed and the identity still in the roster, and when the timeout
  fires, the first identity with that id is removed from the roster, the roster is
  written to the file and no timer is left for the identity. In the variant with the
  history (\<^verbatim>\<open>src/unnamed/part_000\<close>) the new roster is then sent to every open
  connection; in \<^verbatim>\<open>src/server.js\<close> nothing is sent.
\<close>

theorem eviction_after_grace:
  "(st0 = state_of (run parse evs0 (boot roster)) \<and> has_identity u (userState st0) \<and>
    run parse evs (scheduleDeletion u st0) = Returned st \<and>
    undisturbed parse (key_of u) evs (scheduleDeletion u st0) \<longrightarrow>
      (nextTimer st0, u) \<in> set (timeouts st) \<and>
      (\<exists>idx. findIndex (\<lambda>x. strict_eq (uid x) u) (userState st) = Some idx \<and>
         idx < length (userState st) \<and> strict_eq (uid (userState st ! idx)) u \<and>
         userState (fire (nextTimer st0) st) = splice1 idx (userState st) \<and>
         trace (fire (nextTimer st0) st) =
           trace st @ [Wrote (splice1 idx (userState st))] @
           map (\<lambda>c. Sent c (Roster (splice1 idx (userState st)))) (open_clients st) @
           [Logged Info ''Broadcasted updated userState to all clients'',
            Logged Info ''User deleted after 1 minute timeout''] \<and>
         deletionTimers (fire (nextTimer st0) st) (key_of u) = None \<and>
         pending (key_of u) (fire (nextTimer st0) st) = [])) \<and>
   (sj0 = state_of (run_js parse evs0 (boot roster)) \<and> has_identity u (userState sj0) \<and>
    run_js parse evs (scheduleDeletion u sj0) = Returned sj \<and>
    undisturbed_js parse (key_of u) evs (scheduleDeletion u sj0) \<longrightarrow>
      (nextTimer sj0, u) \<in> set (timeouts sj) \<and>
      (\<exists>idx. findIndex (\<lambda>x. strict_eq (uid x) u) (userState sj) = Some idx \<and>
         idx < length (userState sj) \<and> strict_eq (uid (userState sj ! idx)) u \<and>
         userState (fire_js (nextTimer sj0) sj) = splice1 idx (userState sj) \<and>
         trace (fire_js (nextTimer sj0) sj) =
           trace sj @ [Wrote (splice1 idx (userState sj)),
                       Logged Info ''User deleted after 1 minute timeout''] \<and>
         deletionTimers (fire_js (nextTimer sj0) sj) (key_of u) = None \<and>
         pending (key_of u) (fire_js (nextTimer sj0) sj) = []))"
  using eviction_part_000 [of st0 parse evs0 roster u evs st]
    eviction_server_js [of sj0 parse evs0 roster u evs sj]
  by blast

theorem eviction_after_grace_witness:
  "userState (fire 0 (state_of (run
      (\<lambda>s. if s = ''m'' then Some (JObj 1 [(''type'', JStr ''send''),
                                            (''user'', JObj 2 [(''id'', JStr ''B'')])]) else None)
      [Connect 2, Message 2 ''m'' False]
      (scheduleDeletion (JStr ''A'') (boot [\<lparr>uid = JStr ''A'', uname = JStr ''alice''\<rparr>]))))) = [] \<and>
   deliveries (trace (fire 0 (state_of (run
      (\<lambda>s. if s = ''m'' then Some (JObj 1 [(''type'', JStr ''send''),
                                            (''user'', JObj 2 [(''id'', JStr ''B'')])]) else None)
      [Connect 2, Message 2 ''m'' False]
      (scheduleDeletion (JStr ''A'') (boot [\<lparr>uid = JStr ''A'', uname = JStr ''alice''\<rparr>])))))) =
     [(2, Roster [\<lparr>uid = JStr ''A'', uname = JStr ''alice''\<rparr>]), (2, Raw ''m'' False),
      (2, Roster [])] \<and>
   userState (fire_js 0 (state_of (run_js
      (\<lambda>s. if s = ''m'' then Some (JObj 1 [(''type'', JStr ''send''),
                                            (''user'', JObj 2 [(''id'', JStr ''B'')])]) else None)
      [Connect 2, Message 2 ''m'' False]
      (scheduleDeletion (JStr ''A'') (boot [\<lparr>uid = JStr ''A'', uname = JStr ''alice''\<rparr>]))))) = [] \<and>
   deliveries (trace (fire_js 0 (state_of (run_js
      (\<lambda>s. if s = ''m'' then Some (JObj 1 [(''type'', JStr ''send''),
                                            (''user'', JObj 2 [(''id'', JStr ''B'')])]) else None)
      [Connect 2, Message 2 ''m'' False]
      (scheduleDeletion (JStr ''A'') (boot [\<lparr>uid = JStr ''A'', uname = JStr ''alice''\<rparr>])))))) =
     [(2, Roster [\<lparr>uid = JStr ''A'', uname = JStr ''alice''\<rparr>]), (2, Raw ''m'' False)]"
proof -
  let ?A = "\<lparr>uid = JStr ''A'', uname = JStr ''alice''\<rparr>"
  let ?B = "boot [?A]"
  let ?P = "\<lambda>s. if s = ''m'' then Some (JObj 1 [(''type'', JStr ''send''),
                                            (''user'', JObj 2 [(''id'', JStr ''B'')])]) else None"
  let ?E = "[Connect 2, Message 2 ''m'' False]"
  let ?S1 = "scheduleDeletion (JStr ''A'') ?B"
  let ?S = "state_of (run ?P ?E ?S1)"
  let ?J = "state_of (run_js ?P ?E ?S1)"
  have n0: "nextTimer ?B = 0" by (simp add: boot_def)
  have reach: "?B = state_of (run ?P [] (boot [?A]))"
    and reachj: "?B = state_of (run_js ?P [] (boot [?A]))" by simp_all
  have member: "has_identity (JStr ''A'') (userState ?B)"
    by (simp add: has_identity_def boot_def strict_eq_def)
  have later: "run ?P ?E ?S1 = Returned ?S"
    by (simp add: step_def on_message_def received_def Let_def)
  have laterj: "run_js ?P ?E ?S1 = Returned ?J"
    by (simp add: step_js_def on_message_js_def received_js_def Let_def)
  have quiet: "undisturbed ?P (key_of (JStr ''A'')) ?E ?S1"
    by (simp add: touches_def step_def split: result.splits)
  have quietj: "undisturbed_js ?P (key_of (JStr ''A'')) ?E ?S1"
    by (simp add: touches_def step_js_def split: result.splits)
  have us: "userState ?S = [?A]" "userState ?J = [?A]"
    by (simp_all add: step_def step_js_def on_message_def received_def on_message_js_def
        received_js_def Let_def send_branch_js_def on_connection_def boot_def)
  have oc: "open_clients ?S = [2]" "open_clients ?J = [2]"
    by (simp_all add: step_def step_js_def on_message_def received_def on_message_js_def
        received_js_def Let_def on_connection_def open_clients_def boot_def
        announce_def cancelDeletion_def send_branch_def send_branch_js_def send_all_def emit_def)
  have tr: "deliveries (trace ?S) = [(2, Roster [?A]), (2, Raw ''m'' False)]"
    "deliveries (trace ?J) = [(2, Roster [?A]), (2, Raw ''m'' False)]"
    by (simp_all add: step_def step_js_def on_message_def received_def on_message_js_def
        received_js_def Let_def on_connection_def open_clients_def boot_def
        send_branch_js_def)
  note t = eviction_after_grace [where ?st0.0 = ?B and parse = ?P and ?evs0.0 = "[]"
      and roster = "[?A]" and u = "JStr ''A''" and evs = ?E and st = ?S
      and ?sj0.0 = ?B and sj = ?J]
  from t reach member later quiet
  obtain idx where i: "findIndex (\<lambda>x. strict_eq (uid x) (JStr ''A'')) (userState ?S) = Some idx"
    and u: "userState (fire (nextTimer ?B) ?S) = splice1 idx (userState ?S)"
    and f: "trace (fire (nextTimer ?B) ?S) =
           trace ?S @ [Wrote (splice1 idx (userState ?S))] @
           map (\<lambda>c. Sent c (Roster (splice1 idx (userState ?S)))) (open_clients ?S) @
           [Logged Info ''Broadcasted updated userState to all clients'',
            Logged Info ''User deleted after 1 minute timeout'']"
    by blast
  from i have i0: "idx = 0" unfolding us by (simp add: strict_eq_def)
  from t reachj member laterj quietj
  obtain jdx where j: "findIndex (\<lambda>x. strict_eq (uid x) (JStr ''A'')) (userState ?J) = Some jdx"
    and uj: "userState (fire_js (nextTimer ?B) ?J) = splice1 jdx (userState ?J)"
    and fj: "trace (fire_js (nextTimer ?B) ?J) =
           trace ?J @ [Wrote (splice1 jdx (userState ?J)),
                       Logged Info ''User deleted after 1 minute timeout'']"
    by blast
  from j have j0: "jdx = 0" unfolding us by (simp add: strict_eq_def)
  have a: "userState (fire 0 ?S) = []"
    using u i0 unfolding n0 us by (simp add: splice1_def)
  have b: "deliveries (trace (fire 0 ?S)) = [(2, Roster [?A]), (2, Raw ''m'' False), (2, Roster [])]"
    using f i0 tr(1) unfolding n0 us oc by (simp add: splice1_def)
  have c: "userState (fire_js 0 ?J) = []"
    using uj j0 unfolding n0 us by (simp add: splice1_def)
  have d: "deliveries (trace (fire_js 0 ?J)) = [(2, Roster [?A]), (2, Raw ''m'' False)]"
    using fj j0 tr(2) unfolding n0 us by (simp add: splice1_def)
  from a b c d show ?thesis by blast
qed

end
